theory Spec2Isabelle
  imports Complex_Main
begin

section \<open>Data model\<close>

text \<open>
  The subset of the Prisma \<open>Task\<close> row that \<open>overdue-scheduler.service.ts\<close> reads
  or writes. Identifiers are strings; points in time are \<open>Date.getTime()\<close> values
  (milliseconds since the epoch); a nullable column is an \<open>option\<close>. The included
  relation \<open>assignments: { select: { userId: true } }\<close> is the list of its user ids.
\<close>

record task =
  task_id :: string
  title :: string
  titleAr :: string
  dueDate :: "int option"
  status :: string
  isDeleted :: bool
  lastOverdueNotifiedAt :: "int option"
  assigneeUserId :: "string option"
  createdById :: "string option"
  assignments :: "string list"
  trackId :: "string option"

text \<open>The payload object handed to \<open>NotificationsService.createForUsers\<close>.\<close>

record payload =
  p_type :: string
  p_title :: string
  p_titleAr :: string
  p_body :: string
  p_bodyAr :: string
  p_entityType :: string
  p_entityId :: string
  p_trackId :: "string option"

text \<open>The payload object handed to \<open>EventsGateway.emitToUser\<close>.\<close>

record event_payload =
  ev_type :: string
  ev_taskId :: string
  ev_titleAr :: string

datatype error = StoreReadError | StoreWriteError | SinkError | BusError

datatype log_entry = LogInfo string | LogError string error

text \<open>An invocation of a collaborator, whether it returned or raised.\<close>

datatype call =
    FindManyCall nat
  | CreateForUsersCall "string list" payload
  | EmitToUserCall string string event_payload
  | UpdateCall string int

text \<open>
  The state the scheduler acts on: the task table in the store's default order, the
  durable notifications recorded by the sink, the real-time events pushed on the bus,
  the logger's output, the trace of collaborator invocations (each with the time at which
  it was made) and the system clock.
\<close>

record world =
  tasks :: "task list"
  notifications :: "(string list \<times> payload) list"
  events :: "(string \<times> string \<times> event_payload) list"
  logs :: "log_entry list"
  calls :: "(int \<times> call) list"
  clock :: int

text \<open>
  What the surroundings decide: which collaborator invocations raise, and how many
  milliseconds each invocation takes.
\<close>

record env =
  findManyFails :: bool
  createForUsersFails :: "string list \<Rightarrow> payload \<Rightarrow> bool"
  emitToUserFails :: "string \<Rightarrow> event_payload \<Rightarrow> bool"
  updateFails :: "string \<Rightarrow> bool"
  latency :: nat

section \<open>JavaScript primitives\<close>

text \<open>Truthiness of a \<open>string | null\<close>: \<open>null\<close> and the empty string are falsy.\<close>

definition truthy :: "string option \<Rightarrow> bool" where
  "truthy s = (case s of None \<Rightarrow> False | Some x \<Rightarrow> x \<noteq> [])"

text \<open>\<open>Set.prototype.add\<close> on a \<open>Set<string>\<close> kept in insertion order.\<close>

definition set_add :: "string list \<Rightarrow> string \<Rightarrow> string list" where
  "set_add s x = (if x \<in> set s then s else s @ [x])"

text \<open>\<open>if (v) s.add(v)\<close> for a nullable string \<open>v\<close>.\<close>

definition add_if_truthy :: "string list \<Rightarrow> string option \<Rightarrow> string list" where
  "add_if_truthy s v = (case v of None \<Rightarrow> s | Some x \<Rightarrow> if truthy v then set_add s x else s)"

text \<open>\<open>v || undefined\<close> for a nullable string \<open>v\<close>.\<close>

definition or_undefined :: "string option \<Rightarrow> string option" where
  "or_undefined v = (if truthy v then v else None)"

text \<open>Decimal rendering of an integer inside a template literal.\<close>

function show_nat :: "nat \<Rightarrow> string" where
  "show_nat n =
     (if n < 10 then [''0123456789'' ! n]
      else show_nat (n div 10) @ [''0123456789'' ! (n mod 10)])"
  by pat_completeness auto
termination
  by (relation "measure (\<lambda>n. n)") auto

definition show_int :: "int \<Rightarrow> string" where
  "show_int i = (if i < 0 then CHR ''-'' # show_nat (nat (- i)) else show_nat (nat i))"

text \<open>
  \<open>Math.ceil(a / b)\<close> on two integers. The quotient is taken exactly, where the
  source divides two doubles: the two agree as long as \<open>a\<close> is a double itself, that
  is below \<open>2 ^ 53\<close> in absolute value (two timestamps less than 285,000 years apart,
  for the divisor of line 116); beyond that the model says nothing about the source.
\<close>

definition ceil_div :: "int \<Rightarrow> int \<Rightarrow> int" where
  "ceil_div a b = \<lceil>real_of_int a / real_of_int b\<rceil>"

section \<open>Recipient sets and messages\<close>

text \<open>Lines 45--48: assignee, creator, then every assignment user.\<close>

definition overdueUserIds :: "task \<Rightarrow> string list" where
  "overdueUserIds t =
     foldl set_add
       (add_if_truthy (add_if_truthy [] (assigneeUserId t)) (createdById t))
       (assignments t)"

text \<open>Lines 111--113: assignee, then every assignment user.\<close>

definition reminderUserIds :: "task \<Rightarrow> string list" where
  "reminderUserIds t =
     foldl set_add (add_if_truthy [] (assigneeUserId t)) (assignments t)"

definition quote_chr :: char where
  "quote_chr = CHR 0x22"

definition ar_task_overdue :: string where
  "ar_task_overdue = [CHR 0xD9, CHR 0x85, CHR 0xD9, CHR 0x87, CHR 0xD9, CHR 0x85, CHR 0xD8,
     CHR 0xA9, CHR 0x20, CHR 0xD9, CHR 0x85, CHR 0xD8, CHR 0xAA, CHR 0xD8, CHR 0xA3, CHR 0xD8,
     CHR 0xAE, CHR 0xD8, CHR 0xB1, CHR 0xD8, CHR 0xA9]"

definition ar_the_task :: string where
  "ar_the_task = [CHR 0xD8, CHR 0xA7, CHR 0xD9, CHR 0x84, CHR 0xD9, CHR 0x85, CHR 0xD9,
     CHR 0x87, CHR 0xD9, CHR 0x85, CHR 0xD8, CHR 0xA9, CHR 0x20]"

definition ar_passed_deadline :: string where
  "ar_passed_deadline = [CHR 0x20, CHR 0xD8, CHR 0xAA, CHR 0xD8, CHR 0xAC, CHR 0xD8, CHR 0xA7,
     CHR 0xD9, CHR 0x88, CHR 0xD8, CHR 0xB2, CHR 0xD8, CHR 0xAA, CHR 0x20, CHR 0xD8, CHR 0xA7,
     CHR 0xD9, CHR 0x84, CHR 0xD9, CHR 0x85, CHR 0xD9, CHR 0x88, CHR 0xD8, CHR 0xB9, CHR 0xD8,
     CHR 0xAF, CHR 0x20, CHR 0xD8, CHR 0xA7, CHR 0xD9, CHR 0x84, CHR 0xD9, CHR 0x85, CHR 0xD8,
     CHR 0xAD, CHR 0xD8, CHR 0xAF, CHR 0xD8, CHR 0xAF]"

definition ar_overdue_reminder :: string where
  "ar_overdue_reminder = [CHR 0xD8, CHR 0xAA, CHR 0xD8, CHR 0xB0, CHR 0xD9, CHR 0x83, CHR 0xD9,
     CHR 0x8A, CHR 0xD8, CHR 0xB1, CHR 0x20, CHR 0xD8, CHR 0xA8, CHR 0xD9, CHR 0x85, CHR 0xD9,
     CHR 0x87, CHR 0xD9, CHR 0x85, CHR 0xD8, CHR 0xA9, CHR 0x20, CHR 0xD9, CHR 0x85, CHR 0xD8,
     CHR 0xAA, CHR 0xD8, CHR 0xA3, CHR 0xD8, CHR 0xAE, CHR 0xD8, CHR 0xB1, CHR 0xD8, CHR 0xA9]"

definition ar_late_since :: string where
  "ar_late_since = [CHR 0x20, CHR 0xD9, CHR 0x85, CHR 0xD8, CHR 0xAA, CHR 0xD8, CHR 0xA3,
     CHR 0xD8, CHR 0xAE, CHR 0xD8, CHR 0xB1, CHR 0xD8, CHR 0xA9, CHR 0x20, CHR 0xD9, CHR 0x85,
     CHR 0xD9, CHR 0x86, CHR 0xD8, CHR 0xB0, CHR 0x20]"

definition ar_day :: string where
  "ar_day = [CHR 0x20, CHR 0xD9, CHR 0x8A, CHR 0xD9, CHR 0x88, CHR 0xD9, CHR 0x85]"

text \<open>Lines 51--60. The Arabic literals are their UTF-8 bytes.\<close>

definition overduePayload :: "task \<Rightarrow> payload" where
  "overduePayload t =
     \<lparr> p_type = ''task_overdue'',
       p_title = ''Task Overdue'',
       p_titleAr = ar_task_overdue,
       p_body = ''Task '' @ [quote_chr] @ title t @ [quote_chr] @ '' is overdue'',
       p_bodyAr = ar_the_task @ [quote_chr] @ titleAr t @ [quote_chr] @ ar_passed_deadline,
       p_entityType = ''task'',
       p_entityId = task_id t,
       p_trackId = or_undefined (trackId t) \<rparr>"

text \<open>Lines 64--68.\<close>

definition overdueEvent :: "task \<Rightarrow> event_payload" where
  "overdueEvent t =
     \<lparr> ev_type = ''task_overdue'', ev_taskId = task_id t, ev_titleAr = titleAr t \<rparr>"

text \<open>
  Line 116. The query only returns rows whose \<open>dueDate\<close> is not null; on a null
  one \<open>new Date(null).getTime()\<close> is 0.
\<close>

definition daysDiff :: "int \<Rightarrow> task \<Rightarrow> int" where
  "daysDiff now t =
     ceil_div (now - (case dueDate t of None \<Rightarrow> 0 | Some d \<Rightarrow> d)) (1000 * 60 * 60 * 24)"

text \<open>Lines 118--127.\<close>

definition reminderPayload :: "int \<Rightarrow> task \<Rightarrow> payload" where
  "reminderPayload now t =
     \<lparr> p_type = ''task_overdue'',
       p_title = ''Overdue Reminder'',
       p_titleAr = ar_overdue_reminder,
       p_body = ''Task '' @ [quote_chr] @ title t @ [quote_chr] @ '' is ''
                  @ show_int (daysDiff now t) @ '' days overdue'',
       p_bodyAr = ar_the_task @ [quote_chr] @ titleAr t @ [quote_chr] @ ar_late_since
                  @ show_int (daysDiff now t) @ ar_day,
       p_entityType = ''task'',
       p_entityId = task_id t,
       p_trackId = or_undefined (trackId t) \<rparr>"

section \<open>Collaborators\<close>

text \<open>
  An invocation of a collaborator is appended to the trace with the current time and
  takes \<open>latency\<close> milliseconds of wall-clock time.
\<close>

definition invoke :: "env \<Rightarrow> call \<Rightarrow> world \<Rightarrow> world" where
  "invoke e c w = w\<lparr> calls := calls w @ [(clock w, c)], clock := clock w + int (latency e) \<rparr>"

text \<open>
  Modelled from the spec: \<open>PrismaService.task.findMany\<close> (the ORM client, not among
  the sources): up to \<open>n\<close> rows matching the filter, in the store's default order.
\<close>

definition findMany :: "env \<Rightarrow> (task \<Rightarrow> bool) \<Rightarrow> nat \<Rightarrow> world \<Rightarrow> (error + task list) \<times> world" where
  "findMany e P n w =
     (let w1 = invoke e (FindManyCall n) w
      in if findManyFails e then (Inl StoreReadError, w1)
         else (Inr (take n (filter P (tasks w))), w1))"

text \<open>
  Modelled from the spec: \<open>PrismaService.task.update\<close> with
  \<open>data: { lastOverdueNotifiedAt }\<close> (\<open>markNotified(taskId, timestamp)\<close>); it raises
  when the store fails or holds no row with that id.
\<close>

definition stamp :: "string \<Rightarrow> int \<Rightarrow> task list \<Rightarrow> task list" where
  "stamp tid ts rows =
     map (\<lambda>r. if task_id r = tid then r\<lparr> lastOverdueNotifiedAt := Some ts \<rparr> else r) rows"

definition markNotified :: "env \<Rightarrow> string \<Rightarrow> int \<Rightarrow> world \<Rightarrow> (error + unit) \<times> world" where
  "markNotified e tid ts w =
     (let w1 = invoke e (UpdateCall tid ts) w
      in if updateFails e tid \<or> tid \<notin> set (map task_id (tasks w1)) then (Inl StoreWriteError, w1)
         else (Inr (), w1\<lparr> tasks := stamp tid ts (tasks w1) \<rparr>))"

text \<open>
  Modelled from the spec: \<open>NotificationsService.createForUsers\<close> (not among the
  sources), which durably records one notification addressed to a set of user ids, or
  raises. What a call that raises has recorded the spec leaves open; the model takes it
  to have recorded nothing, so a call that raises after recording for some of the
  recipients is not represented.
\<close>

definition createForUsers :: "env \<Rightarrow> string list \<Rightarrow> payload \<Rightarrow> world \<Rightarrow> (error + unit) \<times> world" where
  "createForUsers e uids p w =
     (let w1 = invoke e (CreateForUsersCall uids p) w
      in if createForUsersFails e uids p then (Inl SinkError, w1)
         else (Inr (), w1\<lparr> notifications := notifications w1 @ [(uids, p)] \<rparr>))"

text \<open>
  Modelled from the spec: \<open>EventsGateway.emitToUser\<close> (not among the sources), a
  best-effort push of one event to one user's session.
\<close>

definition emitToUser :: "env \<Rightarrow> string \<Rightarrow> string \<Rightarrow> event_payload \<Rightarrow> world \<Rightarrow> (error + unit) \<times> world" where
  "emitToUser e uid name ev w =
     (let w1 = invoke e (EmitToUserCall uid name ev) w
      in if emitToUserFails e uid ev then (Inl BusError, w1)
         else (Inr (), w1\<lparr> events := events w1 @ [(uid, name, ev)] \<rparr>))"

definition logInfo :: "string \<Rightarrow> world \<Rightarrow> world" where
  "logInfo msg w = w\<lparr> logs := logs w @ [LogInfo msg] \<rparr>"

definition logError :: "string \<Rightarrow> error \<Rightarrow> world \<Rightarrow> world" where
  "logError msg err w = w\<lparr> logs := logs w @ [LogError msg err] \<rparr>"

section \<open>The 15-minute scan\<close>

text \<open>The \<open>where\<close> clause of lines 26--31 at the time \<open>now\<close>.\<close>

definition newlyOverdue :: "int \<Rightarrow> task \<Rightarrow> bool" where
  "newlyOverdue now t =
     (isDeleted t = False
      \<and> (case dueDate t of None \<Rightarrow> False | Some d \<Rightarrow> d < now)
      \<and> status t \<notin> set [''completed'', ''cancelled'']
      \<and> lastOverdueNotifiedAt t = None)"

text \<open>Lines 63--69: \<open>userIds.forEach\<close>, which stops where a callback raises.\<close>

fun emitAll :: "env \<Rightarrow> task \<Rightarrow> string list \<Rightarrow> world \<Rightarrow> (error + unit) \<times> world" where
  "emitAll e t [] w = (Inr (), w)"
| "emitAll e t (uid # uids) w =
     (case emitToUser e uid ''notification.new'' (overdueEvent t) w of
        (Inl err, w1) \<Rightarrow> (Inl err, w1)
      | (Inr _, w1) \<Rightarrow> emitAll e t uids w1)"

text \<open>Lines 44--76: the body of the loop for one task.\<close>

definition overdueStep :: "env \<Rightarrow> int \<Rightarrow> task \<Rightarrow> world \<Rightarrow> (error + unit) \<times> world" where
  "overdueStep e now t w =
     (let userIds = overdueUserIds t
      in case (if length userIds > 0 then
                 (case createForUsers e userIds (overduePayload t) w of
                    (Inl err, w1) \<Rightarrow> (Inl err, w1)
                  | (Inr _, w1) \<Rightarrow> emitAll e t userIds w1)
               else (Inr (), w)) of
           (Inl err, w2) \<Rightarrow> (Inl err, w2)
         | (Inr _, w2) \<Rightarrow> markNotified e (task_id t) now w2)"

text \<open>\<open>for (const task of overdueTasks)\<close>: sequential, left at the first error.\<close>

fun forEachTask :: "(task \<Rightarrow> world \<Rightarrow> (error + unit) \<times> world) \<Rightarrow> task list \<Rightarrow> world \<Rightarrow> (error + unit) \<times> world" where
  "forEachTask step [] w = (Inr (), w)"
| "forEachTask step (t # ts) w =
     (case step t w of
        (Inl err, w1) \<Rightarrow> (Inl err, w1)
      | (Inr _, w1) \<Rightarrow> forEachTask step ts w1)"

text \<open>Lines 24--79: the \<open>try\<close> block.\<close>

definition detectOverdueTasks_try :: "env \<Rightarrow> world \<Rightarrow> (error + unit) \<times> world" where
  "detectOverdueTasks_try e w =
     (let now = clock w
      in case findMany e (newlyOverdue now) 100 w of
           (Inl err, w1) \<Rightarrow> (Inl err, w1)
         | (Inr overdueTasks, w1) \<Rightarrow>
             if length overdueTasks = 0 then (Inr (), w1)
             else (let w2 = logInfo (''Found '' @ show_nat (length overdueTasks)
                                       @ '' newly overdue tasks'') w1
                   in case forEachTask (overdueStep e now) overdueTasks w2 of
                        (Inl err, w3) \<Rightarrow> (Inl err, w3)
                      | (Inr _, w3) \<Rightarrow>
                          (Inr (), logInfo (''Notified for '' @ show_nat (length overdueTasks)
                                              @ '' overdue tasks'') w3)))"

text \<open>Lines 22--83: the \<open>try\<close> block under its \<open>catch\<close>.\<close>

definition detectOverdueTasks :: "env \<Rightarrow> world \<Rightarrow> (error + unit) \<times> world" where
  "detectOverdueTasks e w =
     (case detectOverdueTasks_try e w of
        (Inl err, w1) \<Rightarrow> (Inr (), logError ''Error in overdue task detection'' err w1)
      | (Inr _, w1) \<Rightarrow> (Inr (), w1))"

section \<open>The daily reminder scan\<close>

text \<open>The \<open>where\<close> clause of lines 94--99 at the time \<open>now\<close>.\<close>

definition stillOverdue :: "int \<Rightarrow> task \<Rightarrow> bool" where
  "stillOverdue now t =
     (isDeleted t = False
      \<and> (case dueDate t of None \<Rightarrow> False | Some d \<Rightarrow> d < now)
      \<and> status t \<notin> set [''completed'', ''cancelled'']
      \<and> lastOverdueNotifiedAt t \<noteq> None)"

text \<open>Lines 110--134: the body of the loop for one task.\<close>

definition reminderStep :: "env \<Rightarrow> int \<Rightarrow> task \<Rightarrow> world \<Rightarrow> (error + unit) \<times> world" where
  "reminderStep e now t w =
     (let userIds = reminderUserIds t
      in case (if length userIds > 0 then
                 createForUsers e userIds (reminderPayload now t) w
               else (Inr (), w)) of
           (Inl err, w2) \<Rightarrow> (Inl err, w2)
         | (Inr _, w2) \<Rightarrow> markNotified e (task_id t) now w2)"

text \<open>Lines 92--135: the \<open>try\<close> block.\<close>

definition sendDailyOverdueReminders_try :: "env \<Rightarrow> world \<Rightarrow> (error + unit) \<times> world" where
  "sendDailyOverdueReminders_try e w =
     (let now = clock w
      in case findMany e (stillOverdue now) 200 w of
           (Inl err, w1) \<Rightarrow> (Inl err, w1)
         | (Inr overdueTasks, w1) \<Rightarrow>
             if length overdueTasks = 0 then (Inr (), w1)
             else (let w2 = logInfo (''Sending daily reminders for ''
                                       @ show_nat (length overdueTasks) @ '' overdue tasks'') w1
                   in forEachTask (reminderStep e now) overdueTasks w2))"

text \<open>Lines 90--139: the \<open>try\<close> block under its \<open>catch\<close>.\<close>

definition sendDailyOverdueReminders :: "env \<Rightarrow> world \<Rightarrow> (error + unit) \<times> world" where
  "sendDailyOverdueReminders e w =
     (case sendDailyOverdueReminders_try e w of
        (Inl err, w1) \<Rightarrow> (Inr (), logError ''Error sending daily overdue reminders'' err w1)
      | (Inr _, w1) \<Rightarrow> (Inr (), w1))"

section \<open>Daily-updates upload validation\<close>

text \<open>The fields of \<open>Express.Multer.File\<close> that the service reads.\<close>

record multer_file =
  originalname :: string
  mimetype :: string
  size :: nat

text \<open>
  Each of the three is a \<open>BadRequestException\<close>; the constructor records which check
  of \<open>validateFile\<close> raised it and the value its message interpolates.
\<close>

datatype upload_error =
    BlockedExtension string
  | UnsupportedExtension string
  | FileTooLarge string

definition ALLOWED_EXTENSIONS :: "string list" where
  "ALLOWED_EXTENSIONS =
     [''.xlsx'', ''.xls'', ''.docx'', ''.doc'', ''.pptx'', ''.ppt'',
      ''.pdf'', ''.png'', ''.jpg'', ''.jpeg'', ''.webp'',
      ''.txt'', ''.csv'', ''.zip'']"

definition BLOCKED_EXTENSIONS :: "string list" where
  "BLOCKED_EXTENSIONS =
     [''.exe'', ''.js'', ''.sh'', ''.bat'', ''.dll'', ''.apk'', ''.cmd'',
      ''.com'', ''.msi'', ''.ps1'', ''.vbs'', ''.wsf'', ''.scr'', ''.pif'']"

definition ALLOWED_MIMES :: "string list" where
  "ALLOWED_MIMES =
     [''application/vnd.openxmlformats-officedocument.spreadsheetml.sheet'',
      ''application/vnd.ms-excel'',
      ''application/vnd.openxmlformats-officedocument.wordprocessingml.document'',
      ''application/msword'',
      ''application/vnd.openxmlformats-officedocument.presentationml.presentation'',
      ''application/vnd.ms-powerpoint'',
      ''application/pdf'',
      ''image/png'', ''image/jpeg'', ''image/webp'',
      ''text/plain'', ''text/csv'',
      ''application/zip'', ''application/x-zip-compressed'',
      ''application/octet-stream'']"

text \<open>
  Node's \<open>path.extname\<close> (POSIX flavour), a right-to-left scan of the path: the state
  of its loop, one iteration for the character at index \<open>i\<close>, and the final test.
\<close>

record ext_scan =
  startDot :: int
  startPart :: int
  endPos :: int
  matchedSlash :: bool
  preDotState :: int

fun extname_scan :: "string \<Rightarrow> nat \<Rightarrow> ext_scan \<Rightarrow> ext_scan" where
  "extname_scan path 0 s = s"
| "extname_scan path (Suc i) s =
     (if path ! i = CHR ''/'' then
        (if \<not> matchedSlash s then s\<lparr> startPart := int i + 1 \<rparr>
         else extname_scan path i s)
      else
        (let s1 = (if endPos s = - 1 then s\<lparr> matchedSlash := False, endPos := int i + 1 \<rparr>
                   else s);
             s2 = (if path ! i = CHR ''.'' then
                     (if startDot s1 = - 1 then s1\<lparr> startDot := int i \<rparr>
                      else if preDotState s1 \<noteq> 1 then s1\<lparr> preDotState := 1 \<rparr>
                      else s1)
                   else if startDot s1 \<noteq> - 1 then s1\<lparr> preDotState := - 1 \<rparr>
                   else s1)
         in extname_scan path i s2))"

definition extname :: "string \<Rightarrow> string" where
  "extname path =
     (let s = extname_scan path (length path)
                \<lparr> startDot = - 1, startPart = 0, endPos = - 1,
                  matchedSlash = True, preDotState = 0 \<rparr>
      in if startDot s = - 1 \<or> endPos s = - 1 \<or> preDotState s = 0
            \<or> (preDotState s = 1 \<and> startDot s = endPos s - 1
                \<and> startDot s = startPart s + 1)
         then []
         else take (nat (endPos s - startDot s)) (drop (nat (startDot s)) path))"

text \<open>
  \<open>String.prototype.toLowerCase\<close> on the letters A to Z; every other character is
  kept, where the source also lowers the letters outside ASCII. The two lists of
  extensions are ASCII, and the one character outside ASCII that the source lowers
  into ASCII is U+212A (to \<open>k\<close>): for an extension written with it, or with another
  capital letter outside ASCII, the model may differ from the source in which of the two
  extension errors is raised and in the text it carries, never in whether the file is
  accepted.
\<close>

definition lower_char :: "char \<Rightarrow> char" where
  "lower_char c =
     (case map_of (zip ''ABCDEFGHIJKLMNOPQRSTUVWXYZ'' ''abcdefghijklmnopqrstuvwxyz'') c of
        None \<Rightarrow> c | Some l \<Rightarrow> l)"

definition toLowerCase :: "string \<Rightarrow> string" where
  "toLowerCase s = map lower_char s"

text \<open>The constructor's \<open>MAX_UPLOAD_MB * 1024 * 1024\<close> (25 when not configured).\<close>

definition maxFileSize :: "nat \<Rightarrow> nat" where
  "maxFileSize maxUploadMb = maxUploadMb * 1024 * 1024"

text \<open>\<open>DailyUpdatesService.validateFile\<close>: returning normally accepts the file.\<close>

definition validateFile :: "nat \<Rightarrow> multer_file \<Rightarrow> upload_error + unit" where
  "validateFile maxUploadMb file =
     (let ext = toLowerCase (extname (originalname file))
      in if ext \<in> set BLOCKED_EXTENSIONS then Inl (BlockedExtension ext)
         else if ext \<notin> set ALLOWED_EXTENSIONS then Inl (UnsupportedExtension ext)
         else if size file > maxFileSize maxUploadMb then Inl (FileTooLarge (originalname file))
         else Inr ())"

section \<open>Notions used to state the properties\<close>

text \<open>The rows returned by the query of each scan in the world \<open>w\<close>.\<close>

definition overdueBatch :: "world \<Rightarrow> task list" where
  "overdueBatch w = take 100 (filter (newlyOverdue (clock w)) (tasks w))"

definition reminderBatch :: "world \<Rightarrow> task list" where
  "reminderBatch w = take 200 (filter (stillOverdue (clock w)) (tasks w))"

text \<open>The table after the rows with the given ids were stamped with \<open>ts\<close>.\<close>

definition stampAll :: "string list \<Rightarrow> int \<Rightarrow> task list \<Rightarrow> task list" where
  "stampAll ids ts rows =
     map (\<lambda>r. if task_id r \<in> set ids then r\<lparr> lastOverdueNotifiedAt := Some ts \<rparr> else r) rows"

text \<open>A row, and a table, after the rows of \<open>sel\<close> were stamped with \<open>ts\<close>.\<close>

definition stampRow :: "int \<Rightarrow> task \<Rightarrow> task" where
  "stampRow ts r = r\<lparr> lastOverdueNotifiedAt := Some ts \<rparr>"

definition stampRows :: "task list \<Rightarrow> int \<Rightarrow> task list \<Rightarrow> task list" where
  "stampRows sel ts rows = map (\<lambda>r. if r \<in> set sel then stampRow ts r else r) rows"

text \<open>
  The stamp updates in a trace: the time of the invocation, the task id and the
  timestamp written.
\<close>

fun updatesOf :: "(int \<times> call) list \<Rightarrow> (int \<times> string \<times> int) list" where
  "updatesOf [] = []"
| "updatesOf ((tm, UpdateCall tid ts) # cs) = (tm, tid, ts) # updatesOf cs"
| "updatesOf (c # cs) = updatesOf cs"

text \<open>What a run that took \<open>w\<close> to \<open>w'\<close> added to the trace and to the sink.\<close>

definition newCalls :: "world \<Rightarrow> world \<Rightarrow> (int \<times> call) list" where
  "newCalls w w' = drop (length (calls w)) (calls w')"

definition newNotifications :: "world \<Rightarrow> world \<Rightarrow> (string list \<times> payload) list" where
  "newNotifications w w' = drop (length (notifications w)) (notifications w')"

text \<open>
  No collaborator raises while the 15-minute scan notifies the task's recipients, and
  none raises during its whole loop body.
\<close>

definition notifyOk :: "env \<Rightarrow> task \<Rightarrow> bool" where
  "notifyOk e t =
     (overdueUserIds t = []
      \<or> (\<not> createForUsersFails e (overdueUserIds t) (overduePayload t)
         \<and> list_all (\<lambda>u. \<not> emitToUserFails e u (overdueEvent t)) (overdueUserIds t)))"

definition overdueStepOk :: "env \<Rightarrow> task \<Rightarrow> bool" where
  "overdueStepOk e t = (notifyOk e t \<and> \<not> updateFails e (task_id t))"

text \<open>The same for the loop body of the daily scan.\<close>

definition remindOk :: "env \<Rightarrow> int \<Rightarrow> task \<Rightarrow> bool" where
  "remindOk e now t =
     (reminderUserIds t = []
      \<or> \<not> createForUsersFails e (reminderUserIds t) (reminderPayload now t))"

definition reminderStepOk :: "env \<Rightarrow> int \<Rightarrow> task \<Rightarrow> bool" where
  "reminderStepOk e now t = (remindOk e now t \<and> \<not> updateFails e (task_id t))"

text \<open>The notification each scan records for a task, none when nobody is to be told.\<close>

definition overdueNote :: "task \<Rightarrow> (string list \<times> payload) list" where
  "overdueNote t =
     (if overdueUserIds t = [] then [] else [(overdueUserIds t, overduePayload t)])"

definition reminderNote :: "int \<Rightarrow> task \<Rightarrow> (string list \<times> payload) list" where
  "reminderNote now t =
     (if reminderUserIds t = [] then [] else [(reminderUserIds t, reminderPayload now t)])"

text \<open>A nullable user reference that is set: neither \<open>null\<close> nor the empty string.\<close>

definition given :: "string option \<Rightarrow> string set" where
  "given v = (case v of None \<Rightarrow> {} | Some x \<Rightarrow> if x = [] then {} else {x})"

text \<open>Every invocation in a trace was made at or after the time \<open>tm\<close>.\<close>

definition laterThan :: "int \<Rightarrow> (int \<times> call) list \<Rightarrow> bool" where
  "laterThan tm cs = list_all (\<lambda>c. tm \<le> fst c) cs"

text \<open>
  What the sink holds for the task at which a run was abandoned: nothing when it was
  \<open>createForUsers\<close> that raised, as that collaborator is modelled.
\<close>

definition overdueNoteF :: "env \<Rightarrow> task \<Rightarrow> (string list \<times> payload) list" where
  "overdueNoteF e t =
     (if createForUsersFails e (overdueUserIds t) (overduePayload t) then [] else overdueNote t)"

definition reminderNoteF :: "env \<Rightarrow> int \<Rightarrow> task \<Rightarrow> (string list \<times> payload) list" where
  "reminderNoteF e now t =
     (if createForUsersFails e (reminderUserIds t) (reminderPayload now t) then []
      else reminderNote now t)"

text \<open>
  The effect of one loop body, of a whole loop and of a whole run on the table, the sink
  and the trace, in terms of which tasks pass without an error (\<open>ok\<close>) and which get
  as far as the stamp update (\<open>reach\<close>).
\<close>

definition stepSpec ::
  "(task \<Rightarrow> world \<Rightarrow> (error + unit) \<times> world) \<Rightarrow> int \<Rightarrow> (task \<Rightarrow> bool) \<Rightarrow> (task \<Rightarrow> bool)
     \<Rightarrow> (task \<Rightarrow> (string list \<times> payload) list) \<Rightarrow> (task \<Rightarrow> (string list \<times> payload) list) \<Rightarrow> bool" where
  "stepSpec step now ok reach msg msgF =
     (\<forall>t w.
        map task_id (tasks (snd (step t w))) = map task_id (tasks w)
      \<and> notifications (snd (step t w)) = notifications w @ (if ok t then msg t else msgF t)
      \<and> map snd (updatesOf (calls (snd (step t w)))) =
          map snd (updatesOf (calls w)) @ (if reach t then [(task_id t, now)] else [])
      \<and> (\<exists>new. calls (snd (step t w)) = calls w @ new \<and> laterThan (clock w) new)
      \<and> clock w \<le> clock (snd (step t w))
      \<and> (ok t \<longrightarrow> reach t)
      \<and> (task_id t \<in> set (map task_id (tasks w)) \<longrightarrow>
            (fst (step t w) = Inr ()) = ok t
          \<and> tasks (snd (step t w)) = (if ok t then stamp (task_id t) now (tasks w) else tasks w)))"

definition loopSpec ::
  "(error + unit) \<times> world \<Rightarrow> world \<Rightarrow> task list \<Rightarrow> int \<Rightarrow> (task \<Rightarrow> bool) \<Rightarrow> (task \<Rightarrow> bool)
     \<Rightarrow> (task \<Rightarrow> (string list \<times> payload) list) \<Rightarrow> (task \<Rightarrow> (string list \<times> payload) list) \<Rightarrow> bool" where
  "loopSpec r w ts now ok reach msg msgF =
     (tasks (snd r) = stampAll (map task_id (takeWhile ok ts)) now (tasks w)
      \<and> (fst r = Inr ()) = list_all ok ts
      \<and> notifications (snd r) =
          notifications w @ concat (map msg (takeWhile ok ts))
            @ (case dropWhile ok ts of [] \<Rightarrow> [] | f # _ \<Rightarrow> msgF f)
      \<and> map snd (updatesOf (calls (snd r))) =
          map snd (updatesOf (calls w)) @ map (\<lambda>t. (task_id t, now)) (takeWhile ok ts)
            @ (case dropWhile ok ts of [] \<Rightarrow> [] | f # _ \<Rightarrow> if reach f then [(task_id f, now)] else [])
      \<and> (\<exists>new. calls (snd r) = calls w @ new \<and> laterThan (clock w) new)
      \<and> clock w \<le> clock (snd r))"

definition runSpec ::
  "(error + unit) \<times> world \<Rightarrow> world \<Rightarrow> task list \<Rightarrow> int \<Rightarrow> (task \<Rightarrow> bool) \<Rightarrow> (task \<Rightarrow> bool)
     \<Rightarrow> (task \<Rightarrow> (string list \<times> payload) list) \<Rightarrow> (task \<Rightarrow> (string list \<times> payload) list) \<Rightarrow> bool" where
  "runSpec r w ts lat ok reach msg msgF =
     (tasks (snd r) = stampAll (map task_id (takeWhile ok ts)) (clock w) (tasks w)
      \<and> (fst r = Inr ()) = list_all ok ts
      \<and> newNotifications w (snd r) =
          concat (map msg (takeWhile ok ts))
            @ (case dropWhile ok ts of [] \<Rightarrow> [] | f # _ \<Rightarrow> msgF f)
      \<and> map snd (updatesOf (newCalls w (snd r))) =
          map (\<lambda>t. (task_id t, clock w)) (takeWhile ok ts)
            @ (case dropWhile ok ts of [] \<Rightarrow> [] | f # _ \<Rightarrow> if reach f then [(task_id f, clock w)] else [])
      \<and> list_all (\<lambda>u. clock w + lat \<le> fst u) (updatesOf (newCalls w (snd r))))"





section \<open>Sample data\<close>

text \<open>Surroundings in which no collaborator raises and no time passes.\<close>

definition quietEnv :: env where
  "quietEnv =
     \<lparr> findManyFails = False, createForUsersFails = (\<lambda>uids p. False),
       emitToUserFails = (\<lambda>uid ev. False), updateFails = (\<lambda>tid. False), latency = 0 \<rparr>"

definition emptyWorld :: world where
  "emptyWorld = \<lparr> tasks = [], notifications = [], events = [], logs = [], calls = [], clock = 0 \<rparr>"

text \<open>A task created by U9, assigned to U1, with U2 as a further responsible user.\<close>

definition sampleTask :: task where
  "sampleTask =
     \<lparr> task_id = ''T1'', title = ''Report'', titleAr = ''Report'', dueDate = Some 1000,
       status = ''in_progress'', isDeleted = False, lastOverdueNotifiedAt = None,
       assigneeUserId = Some ''U1'', createdById = Some ''U9'', assignments = [''U2''],
       trackId = None \<rparr>"

text \<open>A backlog of overdue tasks assigned to U1, with ids T, TI, TII, ...\<close>

definition backlogTask :: "nat \<Rightarrow> task" where
  "backlogTask n =
     \<lparr> task_id = CHR ''T'' # replicate n (CHR ''I''), title = ''Backlog'', titleAr = ''Backlog'',
       dueDate = Some 0, status = ''pending'', isDeleted = False, lastOverdueNotifiedAt = None,
       assigneeUserId = Some ''U1'', createdById = None, assignments = [], trackId = None \<rparr>"

definition backlogWorld :: "nat \<Rightarrow> world" where
  "backlogWorld n =
     \<lparr> tasks = map backlogTask [0..<n], notifications = [], events = [], logs = [], calls = [],
       clock = 1000 \<rparr>"

text \<open>An overdue task with nobody to tell, after one assigned to U1.\<close>

definition orphanTask :: task where
  "orphanTask = (backlogTask 1)\<lparr> assigneeUserId := None \<rparr>"

definition orphanWorld :: world where
  "orphanWorld =
     \<lparr> tasks = [backlogTask 0, orphanTask], notifications = [], events = [], logs = [], calls = [],
       clock = 1000 \<rparr>"

text \<open>Surroundings in which no collaborator raises and each invocation takes 10 ms.\<close>

definition slowEnv :: env where
  "slowEnv = quietEnv\<lparr> latency := 10 \<rparr>"



text \<open>Surroundings in which the sink raises for the notification of one task.\<close>

definition sinkFailsAt :: "string \<Rightarrow> env" where
  "sinkFailsAt tid = quietEnv\<lparr> createForUsersFails := (\<lambda>uids p. p_entityId p = tid) \<rparr>"

text \<open>Three overdue tasks that were notified at time 5.\<close>

definition remindedTask :: "nat \<Rightarrow> task" where
  "remindedTask n = (backlogTask n)\<lparr> lastOverdueNotifiedAt := Some 5 \<rparr>"

definition remindedWorld :: world where
  "remindedWorld =
     \<lparr> tasks = [remindedTask 0, remindedTask 1, remindedTask 2], notifications = [], events = [],
       logs = [], calls = [], clock = 1000 \<rparr>"

section \<open>Auxiliary facts\<close>

declare show_nat.simps [simp del]

subsection \<open>Recipient sets\<close>

lemma set_set_add: "set (set_add s x) = insert x (set s)"
  by (auto simp: set_add_def)

lemma distinct_set_add: "distinct s \<Longrightarrow> distinct (set_add s x)"
  by (simp add: set_add_def)

lemma set_foldl_set_add: "set (foldl set_add s xs) = set s \<union> set xs"
  by (induction xs arbitrary: s) (auto simp: set_set_add)

lemma distinct_foldl_set_add: "distinct s \<Longrightarrow> distinct (foldl set_add s xs)"
  by (induction xs arbitrary: s) (auto simp: distinct_set_add)

lemma set_add_if_truthy: "set (add_if_truthy s v) = set s \<union> given v"
  by (auto simp: add_if_truthy_def truthy_def set_set_add given_def split: option.splits)

lemma distinct_add_if_truthy: "distinct s \<Longrightarrow> distinct (add_if_truthy s v)"
  by (auto simp: add_if_truthy_def distinct_set_add split: option.splits)

lemma set_overdueUserIds:
  "set (overdueUserIds t) = given (assigneeUserId t) \<union> given (createdById t) \<union> set (assignments t)"
  by (simp add: overdueUserIds_def set_foldl_set_add set_add_if_truthy)

lemma set_reminderUserIds:
  "set (reminderUserIds t) = given (assigneeUserId t) \<union> set (assignments t)"
  by (simp add: reminderUserIds_def set_foldl_set_add set_add_if_truthy)

subsection \<open>Traces\<close>

lemma updatesOf_append: "updatesOf (xs @ ys) = updatesOf xs @ updatesOf ys"
  by (induction xs rule: updatesOf.induct) auto

lemma laterThan_updatesOf: "laterThan tm cs \<Longrightarrow> list_all (\<lambda>u. tm \<le> fst u) (updatesOf cs)"
  by (induction cs rule: updatesOf.induct) (auto simp: laterThan_def)

lemma laterThan_mono: "laterThan tm cs \<Longrightarrow> tm' \<le> tm \<Longrightarrow> laterThan tm' cs"
  by (auto simp: laterThan_def list_all_iff)

subsection \<open>The loop bodies\<close>

lemma emitAll_fst:
  "fst (emitAll e t us w) =
     (if list_all (\<lambda>u. \<not> emitToUserFails e u (overdueEvent t)) us then Inr () else Inl BusError)"
  by (induction us arbitrary: w) (auto simp: emitToUser_def Let_def)

lemma emitAll_frame:
  "tasks (snd (emitAll e t us w)) = tasks w"
  "notifications (snd (emitAll e t us w)) = notifications w"
  "updatesOf (calls (snd (emitAll e t us w))) = updatesOf (calls w)"
  by (induction us arbitrary: w; simp add: emitToUser_def invoke_def Let_def updatesOf_append)+

lemma emitAll_trace:
  "\<exists>new. calls (snd (emitAll e t us w)) = calls w @ new \<and> laterThan (clock w) new
         \<and> clock w \<le> clock (snd (emitAll e t us w))"
proof (induction us arbitrary: w)
  case Nil
  then show ?case by (simp add: laterThan_def)
next
  case (Cons u us)
  let ?w1 = "invoke e (EmitToUserCall u ''notification.new'' (overdueEvent t)) w"
  show ?case
  proof (cases "emitToUserFails e u (overdueEvent t)")
    case True
    then show ?thesis by (simp add: emitToUser_def invoke_def Let_def laterThan_def)
  next
    case False
    let ?w2 = "?w1\<lparr> events := events ?w1 @ [(u, ''notification.new'', overdueEvent t)] \<rparr>"
    from Cons.IH[of ?w2] obtain new where
      n: "calls (snd (emitAll e t us ?w2)) = calls ?w2 @ new" "laterThan (clock ?w2) new"
         "clock ?w2 \<le> clock (snd (emitAll e t us ?w2))" by blast
    have "laterThan (clock w) ((clock w, EmitToUserCall u ''notification.new'' (overdueEvent t)) # new)"
      using n(2) by (auto simp: laterThan_def invoke_def list_all_iff)
    then show ?thesis using False n(1,3)
      by (auto simp: emitToUser_def Let_def invoke_def)
  qed
qed

lemma ids_stamp: "map task_id (stamp tid ts rows) = map task_id rows"
  by (induction rows) (auto simp: stamp_def)

lemma overdueStep_trace:
  "\<exists>new. calls (snd (overdueStep e now t w)) = calls w @ new \<and> laterThan (clock w) new
         \<and> clock w \<le> clock (snd (overdueStep e now t w))"
proof -
  let ?w1 = "invoke e (CreateForUsersCall (overdueUserIds t) (overduePayload t)) w"
  let ?w2 = "?w1\<lparr> notifications := notifications ?w1 @ [(overdueUserIds t, overduePayload t)] \<rparr>"
  obtain new where n: "calls (snd (emitAll e t (overdueUserIds t) ?w2)) = calls ?w2 @ new"
     "laterThan (clock ?w2) new" "clock ?w2 \<le> clock (snd (emitAll e t (overdueUserIds t) ?w2))"
    using emitAll_trace[of e t "overdueUserIds t" ?w2] by blast
  have l: "laterThan (clock w) new" using n(2) by (rule laterThan_mono) (simp add: invoke_def)
  have c: "clock w \<le> clock (snd (emitAll e t (overdueUserIds t) ?w2))"
    using n(3) by (simp add: invoke_def)
  show ?thesis using n(1) l c
    by (auto simp: overdueStep_def createForUsers_def markNotified_def Let_def case_prod_beta
          emitAll_fst invoke_def laterThan_def)
qed

lemma overdueStep_spec:
  "stepSpec (overdueStep e now) now (overdueStepOk e) (notifyOk e) overdueNote (overdueNoteF e)"
  unfolding stepSpec_def
proof (intro allI conjI impI)
  fix t w
  show "map task_id (tasks (snd (overdueStep e now t w))) = map task_id (tasks w)"
    by (simp add: overdueStep_def createForUsers_def markNotified_def
        invoke_def Let_def case_prod_beta emitAll_fst emitAll_frame ids_stamp)
  show "notifications (snd (overdueStep e now t w)) =
          notifications w @ (if overdueStepOk e t then overdueNote t else overdueNoteF e t)"
    by (simp add: overdueStep_def createForUsers_def markNotified_def overdueStepOk_def notifyOk_def
        overdueNote_def overdueNoteF_def invoke_def Let_def case_prod_beta emitAll_fst emitAll_frame)
  show "map snd (updatesOf (calls (snd (overdueStep e now t w)))) =
          map snd (updatesOf (calls w)) @ (if notifyOk e t then [(task_id t, now)] else [])"
    by (simp add: overdueStep_def notifyOk_def createForUsers_def markNotified_def
        invoke_def Let_def case_prod_beta emitAll_fst emitAll_frame updatesOf_append)
  show "\<exists>new. calls (snd (overdueStep e now t w)) = calls w @ new \<and> laterThan (clock w) new"
    using overdueStep_trace[of e now t w] by blast
  show "clock w \<le> clock (snd (overdueStep e now t w))"
    using overdueStep_trace[of e now t w] by blast
  show "overdueStepOk e t \<Longrightarrow> notifyOk e t" by (simp add: overdueStepOk_def)
  assume m: "task_id t \<in> set (map task_id (tasks w))"
  then show "(fst (overdueStep e now t w) = Inr ()) = overdueStepOk e t"
    by (simp add: overdueStep_def overdueStepOk_def notifyOk_def createForUsers_def markNotified_def
        invoke_def Let_def case_prod_beta emitAll_fst emitAll_frame)
  from m show "tasks (snd (overdueStep e now t w)) =
     (if overdueStepOk e t then stamp (task_id t) now (tasks w) else tasks w)"
    by (simp add: overdueStep_def overdueStepOk_def notifyOk_def createForUsers_def markNotified_def
        invoke_def Let_def case_prod_beta emitAll_fst emitAll_frame)
qed

lemma reminderStep_spec:
  "stepSpec (reminderStep e now) now (reminderStepOk e now) (remindOk e now)
     (reminderNote now) (reminderNoteF e now)"
  unfolding stepSpec_def
proof (intro allI conjI impI)
  fix t w
  show "map task_id (tasks (snd (reminderStep e now t w))) = map task_id (tasks w)"
    by (simp add: reminderStep_def createForUsers_def markNotified_def
        invoke_def Let_def case_prod_beta ids_stamp)
  show "notifications (snd (reminderStep e now t w)) =
          notifications w @ (if reminderStepOk e now t then reminderNote now t else reminderNoteF e now t)"
    by (simp add: reminderStep_def createForUsers_def markNotified_def reminderStepOk_def remindOk_def
        reminderNote_def reminderNoteF_def invoke_def Let_def case_prod_beta)
  show "map snd (updatesOf (calls (snd (reminderStep e now t w)))) =
          map snd (updatesOf (calls w)) @ (if remindOk e now t then [(task_id t, now)] else [])"
    by (simp add: reminderStep_def remindOk_def createForUsers_def markNotified_def
        invoke_def Let_def case_prod_beta updatesOf_append)
  show "\<exists>new. calls (snd (reminderStep e now t w)) = calls w @ new \<and> laterThan (clock w) new"
    by (auto simp: reminderStep_def createForUsers_def markNotified_def Let_def case_prod_beta
          invoke_def laterThan_def)
  show "clock w \<le> clock (snd (reminderStep e now t w))"
    by (auto simp: reminderStep_def createForUsers_def markNotified_def Let_def case_prod_beta
          invoke_def)
  show "reminderStepOk e now t \<Longrightarrow> remindOk e now t" by (simp add: reminderStepOk_def)
  assume m: "task_id t \<in> set (map task_id (tasks w))"
  then show "(fst (reminderStep e now t w) = Inr ()) = reminderStepOk e now t"
    by (simp add: reminderStep_def reminderStepOk_def remindOk_def createForUsers_def markNotified_def
        invoke_def Let_def case_prod_beta)
  from m show "tasks (snd (reminderStep e now t w)) =
     (if reminderStepOk e now t then stamp (task_id t) now (tasks w) else tasks w)"
    by (simp add: reminderStep_def reminderStepOk_def remindOk_def createForUsers_def markNotified_def
        invoke_def Let_def case_prod_beta)
qed

lemma stampAll_Nil: "stampAll [] ts rows = rows"
  by (simp add: stampAll_def)

lemma stampAll_Cons: "stampAll (i # ids) ts rows = stampAll ids ts (stamp i ts rows)"
  by (induction rows) (auto simp: stampAll_def stamp_def)


lemma forEachTask_spec:
  assumes spec: "stepSpec step now ok reach msg msgF"
      and ids: "set (map task_id ts) \<subseteq> set (map task_id (tasks w))"
  shows "loopSpec (forEachTask step ts w) w ts now ok reach msg msgF"
  using ids
proof (induction ts arbitrary: w)
  case Nil
  then show ?case by (simp add: loopSpec_def stampAll_Nil laterThan_def)
next
  case (Cons t ts)
  obtain r w1 where s: "step t w = (r, w1)" by (cases "step t w")
  have m: "task_id t \<in> set (map task_id (tasks w))" using Cons.prems by simp
  have sp: "map task_id (tasks (snd (step t w))) = map task_id (tasks w)
      \<and> notifications (snd (step t w)) = notifications w @ (if ok t then msg t else msgF t)
      \<and> map snd (updatesOf (calls (snd (step t w)))) =
          map snd (updatesOf (calls w)) @ (if reach t then [(task_id t, now)] else [])
      \<and> (\<exists>new. calls (snd (step t w)) = calls w @ new \<and> laterThan (clock w) new)
      \<and> clock w \<le> clock (snd (step t w))
      \<and> (ok t \<longrightarrow> reach t)
      \<and> (task_id t \<in> set (map task_id (tasks w)) \<longrightarrow>
            (fst (step t w) = Inr ()) = ok t
          \<and> tasks (snd (step t w)) = (if ok t then stamp (task_id t) now (tasks w) else tasks w))"
    using spec unfolding stepSpec_def by blast
  from sp m s
  have ids1: "map task_id (tasks w1) = map task_id (tasks w)"
    and n1: "notifications w1 = notifications w @ (if ok t then msg t else msgF t)"
    and u1: "map snd (updatesOf (calls w1)) =
               map snd (updatesOf (calls w)) @ (if reach t then [(task_id t, now)] else [])"
    and c1: "\<exists>new. calls w1 = calls w @ new \<and> laterThan (clock w) new"
    and k1: "clock w \<le> clock w1"
    and okr: "ok t \<longrightarrow> reach t"
    and r1: "(r = Inr ()) = ok t"
    and t1: "tasks w1 = (if ok t then stamp (task_id t) now (tasks w) else tasks w)"
    by (simp_all add: ids_stamp)
  show ?case
  proof (cases "ok t")
    case False
    then obtain err where r: "r = Inl err" using r1 by (cases r) auto
    show ?thesis using False s r n1 u1 c1 k1 t1
      by (simp add: loopSpec_def stampAll_Nil)
  next
    case True
    then have r: "r = Inr ()" using r1 by simp
    have "set (map task_id ts) \<subseteq> set (map task_id (tasks w1))"
      using Cons.prems ids1 by simp
    from Cons.IH[OF this] have IH: "loopSpec (forEachTask step ts w1) w1 ts now ok reach msg msgF" .
    obtain new1 where new1: "calls w1 = calls w @ new1" "laterThan (clock w) new1" using c1 by blast
    obtain new2 where new2: "calls (snd (forEachTask step ts w1)) = calls w1 @ new2"
        "laterThan (clock w1) new2"
      using IH by (auto simp: loopSpec_def)
    have l: "laterThan (clock w) (new1 @ new2)"
      using new1(2) laterThan_mono[OF new2(2) k1] by (simp add: laterThan_def)
    have c: "\<exists>new. calls (snd (forEachTask step ts w1)) = calls w @ new \<and> laterThan (clock w) new"
      using new1(1) new2(1) l by auto
    have k: "clock w \<le> clock (snd (forEachTask step ts w1))"
      using IH k1 by (auto simp: loopSpec_def)
    show ?thesis using True s r n1 u1 t1 okr IH c k
      by (simp add: loopSpec_def stampAll_Cons)
  qed
qed

lemma run_from_loop:
  assumes L: "loopSpec r w0 ts (clock w) ok reach msg msgF"
      and t0: "tasks w0 = tasks w"
      and n0: "notifications w0 = notifications w"
      and c0: "calls w0 = calls w @ [(clock w, FindManyCall k)]"
      and k0: "clock w0 = clock w + lat"
  shows "runSpec r w ts lat ok reach msg msgF"
proof -
  from L obtain new where new: "calls (snd r) = calls w0 @ new" "laterThan (clock w0) new"
    by (auto simp: loopSpec_def)
  have nc: "newCalls w (snd r) = (clock w, FindManyCall k) # new"
    using new(1) c0 by (simp add: newCalls_def)
  have u0: "updatesOf (calls (snd r)) = updatesOf (calls w) @ updatesOf new"
    using new(1) c0 by (simp add: updatesOf_append)
  have "map snd (updatesOf (calls (snd r))) =
          map snd (updatesOf (calls w0)) @ map (\<lambda>t. (task_id t, clock w)) (takeWhile ok ts)
            @ (case dropWhile ok ts of [] \<Rightarrow> [] | f # _ \<Rightarrow> if reach f then [(task_id f, clock w)] else [])"
    using L by (simp add: loopSpec_def)
  then have u: "map snd (updatesOf new) = map (\<lambda>t. (task_id t, clock w)) (takeWhile ok ts)
            @ (case dropWhile ok ts of [] \<Rightarrow> [] | f # _ \<Rightarrow> if reach f then [(task_id f, clock w)] else [])"
    using u0 c0 by (simp add: updatesOf_append)
  have l: "list_all (\<lambda>u. clock w + lat \<le> fst u) (updatesOf new)"
    using laterThan_updatesOf[OF new(2)] k0 by simp
  have n: "newNotifications w (snd r) = concat (map msg (takeWhile ok ts))
            @ (case dropWhile ok ts of [] \<Rightarrow> [] | f # _ \<Rightarrow> msgF f)"
    using L n0 by (simp add: loopSpec_def newNotifications_def)
  show ?thesis
    using L t0 n u l nc by (simp add: runSpec_def loopSpec_def)
qed

lemma overdueBatch_ids: "set (map task_id (overdueBatch w)) \<subseteq> set (map task_id (tasks w))"
  by (auto simp: overdueBatch_def dest!: in_set_takeD)

lemma reminderBatch_ids: "set (map task_id (reminderBatch w)) \<subseteq> set (map task_id (tasks w))"
  by (auto simp: reminderBatch_def dest!: in_set_takeD)

lemma findMany_ok:
  "\<not> findManyFails e \<Longrightarrow> findMany e P n w = (Inr (take n (filter P (tasks w))), invoke e (FindManyCall n) w)"
  by (simp add: findMany_def Let_def)

lemma detect_try_unfold:
  "\<not> findManyFails e \<Longrightarrow>
   detectOverdueTasks_try e w =
     (if overdueBatch w = [] then (Inr (), invoke e (FindManyCall 100) w)
      else (case forEachTask (overdueStep e (clock w)) (overdueBatch w)
                   (logInfo (''Found '' @ show_nat (length (overdueBatch w))
                               @ '' newly overdue tasks'') (invoke e (FindManyCall 100) w)) of
              (Inl err, w3) \<Rightarrow> (Inl err, w3)
            | (Inr _, w3) \<Rightarrow>
                (Inr (), logInfo (''Notified for '' @ show_nat (length (overdueBatch w))
                                    @ '' overdue tasks'') w3)))"
proof -
  assume nf: "\<not> findManyFails e"
  have f: "findMany e (newlyOverdue (clock w)) 100 w =
             (Inr (overdueBatch w), invoke e (FindManyCall 100) w)"
    using nf by (simp add: findMany_def Let_def overdueBatch_def)
  show ?thesis unfolding detectOverdueTasks_try_def Let_def f by simp
qed

lemma detect_try_spec:
  assumes nf: "\<not> findManyFails e"
  shows "runSpec (detectOverdueTasks_try e w) w (overdueBatch w) (int (latency e))
           (overdueStepOk e) (notifyOk e) overdueNote (overdueNoteF e)"
proof -
  let ?w1 = "invoke e (FindManyCall 100) w"
  let ?w0 = "if overdueBatch w = [] then ?w1
             else logInfo (''Found '' @ show_nat (length (overdueBatch w)) @ '' newly overdue tasks'') ?w1"
  let ?r = "forEachTask (overdueStep e (clock w)) (overdueBatch w) ?w0"
  have ids: "set (map task_id (overdueBatch w)) \<subseteq> set (map task_id (tasks ?w0))"
    using overdueBatch_ids[of w] by (simp add: invoke_def logInfo_def)
  have L: "loopSpec ?r ?w0 (overdueBatch w) (clock w) (overdueStepOk e) (notifyOk e) overdueNote (overdueNoteF e)"
    by (rule forEachTask_spec[OF overdueStep_spec ids])
  have R: "runSpec ?r w (overdueBatch w) (int (latency e)) (overdueStepOk e) (notifyOk e) overdueNote (overdueNoteF e)"
    by (rule run_from_loop[OF L, where k = 100]) (simp_all add: invoke_def logInfo_def)
  have eq: "fst (detectOverdueTasks_try e w) = fst ?r
      \<and> tasks (snd (detectOverdueTasks_try e w)) = tasks (snd ?r)
      \<and> notifications (snd (detectOverdueTasks_try e w)) = notifications (snd ?r)
      \<and> calls (snd (detectOverdueTasks_try e w)) = calls (snd ?r)"
  proof (cases "overdueBatch w = []")
    case True
    then show ?thesis by (simp add: detect_try_unfold[OF nf])
  next
    case False
    then show ?thesis
      by (simp add: detect_try_unfold[OF nf] case_prod_beta logInfo_def split: sum.splits)
  qed
  show ?thesis using R eq by (simp add: runSpec_def newCalls_def newNotifications_def)
qed

lemma detect_try_failed_query:
  "findManyFails e \<Longrightarrow>
   detectOverdueTasks_try e w = (Inl StoreReadError, invoke e (FindManyCall 100) w)"
  by (simp add: detectOverdueTasks_try_def findMany_def Let_def)

lemma detect_catch:
  "fst (detectOverdueTasks e w) = Inr ()"
  "tasks (snd (detectOverdueTasks e w)) = tasks (snd (detectOverdueTasks_try e w))"
  "notifications (snd (detectOverdueTasks e w)) = notifications (snd (detectOverdueTasks_try e w))"
  "calls (snd (detectOverdueTasks e w)) = calls (snd (detectOverdueTasks_try e w))"
  "clock (snd (detectOverdueTasks e w)) = clock (snd (detectOverdueTasks_try e w))"
  by (simp_all add: detectOverdueTasks_def case_prod_beta logError_def split: sum.splits)

lemma remind_try_unfold:
  "\<not> findManyFails e \<Longrightarrow>
   sendDailyOverdueReminders_try e w =
     (if reminderBatch w = [] then (Inr (), invoke e (FindManyCall 200) w)
      else forEachTask (reminderStep e (clock w)) (reminderBatch w)
             (logInfo (''Sending daily reminders for '' @ show_nat (length (reminderBatch w))
                         @ '' overdue tasks'') (invoke e (FindManyCall 200) w)))"
proof -
  assume nf: "\<not> findManyFails e"
  have f: "findMany e (stillOverdue (clock w)) 200 w =
             (Inr (reminderBatch w), invoke e (FindManyCall 200) w)"
    using nf by (simp add: findMany_def Let_def reminderBatch_def)
  show ?thesis unfolding sendDailyOverdueReminders_try_def Let_def f by simp
qed

lemma remind_try_spec:
  assumes nf: "\<not> findManyFails e"
  shows "runSpec (sendDailyOverdueReminders_try e w) w (reminderBatch w) (int (latency e))
           (reminderStepOk e (clock w)) (remindOk e (clock w))
           (reminderNote (clock w)) (reminderNoteF e (clock w))"
proof -
  let ?w1 = "invoke e (FindManyCall 200) w"
  let ?w0 = "if reminderBatch w = [] then ?w1
             else logInfo (''Sending daily reminders for '' @ show_nat (length (reminderBatch w))
                         @ '' overdue tasks'') ?w1"
  let ?r = "forEachTask (reminderStep e (clock w)) (reminderBatch w) ?w0"
  have ids: "set (map task_id (reminderBatch w)) \<subseteq> set (map task_id (tasks ?w0))"
    using reminderBatch_ids[of w] by (simp add: invoke_def logInfo_def)
  have L: "loopSpec ?r ?w0 (reminderBatch w) (clock w) (reminderStepOk e (clock w))
             (remindOk e (clock w)) (reminderNote (clock w)) (reminderNoteF e (clock w))"
    by (rule forEachTask_spec[OF reminderStep_spec ids])
  have R: "runSpec ?r w (reminderBatch w) (int (latency e)) (reminderStepOk e (clock w))
             (remindOk e (clock w)) (reminderNote (clock w)) (reminderNoteF e (clock w))"
    by (rule run_from_loop[OF L, where k = 200]) (simp_all add: invoke_def logInfo_def)
  have eq: "sendDailyOverdueReminders_try e w = ?r"
    by (cases "reminderBatch w = []") (simp_all add: remind_try_unfold[OF nf])
  show ?thesis using R eq by simp
qed

lemma remind_try_failed_query:
  "findManyFails e \<Longrightarrow>
   sendDailyOverdueReminders_try e w = (Inl StoreReadError, invoke e (FindManyCall 200) w)"
  by (simp add: sendDailyOverdueReminders_try_def findMany_def Let_def)

lemma remind_catch:
  "fst (sendDailyOverdueReminders e w) = Inr ()"
  "tasks (snd (sendDailyOverdueReminders e w)) = tasks (snd (sendDailyOverdueReminders_try e w))"
  "notifications (snd (sendDailyOverdueReminders e w)) = notifications (snd (sendDailyOverdueReminders_try e w))"
  "calls (snd (sendDailyOverdueReminders e w)) = calls (snd (sendDailyOverdueReminders_try e w))"
  "clock (snd (sendDailyOverdueReminders e w)) = clock (snd (sendDailyOverdueReminders_try e w))"
  by (simp_all add: sendDailyOverdueReminders_def case_prod_beta logError_def split: sum.splits)

lemma distinct_overdueUserIds: "distinct (overdueUserIds t)"
  by (simp add: overdueUserIds_def distinct_foldl_set_add distinct_add_if_truthy)

lemma distinct_reminderUserIds: "distinct (reminderUserIds t)"
  by (simp add: reminderUserIds_def distinct_foldl_set_add distinct_add_if_truthy)

lemma ceil_div_char: "0 < b \<Longrightarrow> (ceil_div a b = n) = ((n - 1) * b < a \<and> a \<le> n * b)"
proof -
  assume b: "0 < b"
  have "(ceil_div a b = n) = (real_of_int n - 1 < real_of_int a / real_of_int b \<and> real_of_int a / real_of_int b \<le> real_of_int n)"
    by (simp add: ceil_div_def ceiling_eq_iff)
  also have "\<dots> = (real_of_int ((n - 1) * b) < real_of_int a \<and> real_of_int a \<le> real_of_int (n * b))"
    using b by (simp add: field_simps)
  also have "\<dots> = ((n - 1) * b < a \<and> a \<le> n * b)"
    by (simp only: of_int_less_iff of_int_le_iff)
  finally show ?thesis .
qed

subsection \<open>Recipients of the first notification\<close>

text \<open>
  C4. For every task processed by the 15-minute scan, the recipient set is the
  deduplicated union of the assignee (if set), the creator (if set) and every user of the
  assignment list, a reference being set when it is neither \<open>null\<close> nor empty; that
  set is what the loop body hands to the sink. With assignee U1, creator U1 and
  assignments U2, U3 the recipients are exactly U1, U2, U3.
\<close>

theorem overdue_recipients_are_union:
  "set (overdueUserIds t) =
     given (assigneeUserId t) \<union> given (createdById t) \<union> set (assignments t)
   \<and> distinct (overdueUserIds t)
   \<and> overdueUserIds (t\<lparr> assigneeUserId := Some ''U1'', createdById := Some ''U1'',
                         assignments := [''U2'', ''U3''] \<rparr>) = [''U1'', ''U2'', ''U3'']
   \<and> notifications (snd (overdueStep e now t w)) =
       notifications w @
         (if overdueUserIds t = [] \<or> createForUsersFails e (overdueUserIds t) (overduePayload t)
          then [] else [(overdueUserIds t, overduePayload t)])"
proof (intro conjI)
  show "overdueUserIds (t\<lparr> assigneeUserId := Some ''U1'', createdById := Some ''U1'',
                         assignments := [''U2'', ''U3''] \<rparr>) = [''U1'', ''U2'', ''U3'']"
    by (simp add: overdueUserIds_def add_if_truthy_def truthy_def set_add_def)
  show "notifications (snd (overdueStep e now t w)) =
       notifications w @
         (if overdueUserIds t = [] \<or> createForUsersFails e (overdueUserIds t) (overduePayload t)
          then [] else [(overdueUserIds t, overduePayload t)])"
    by (simp add: overdueStep_def createForUsers_def markNotified_def invoke_def Let_def
          case_prod_beta emitAll_fst emitAll_frame)
qed (rule set_overdueUserIds distinct_overdueUserIds)+

subsection \<open>Recipients of the daily reminder\<close>

text \<open>
  C5. For every task processed by the daily reminder scan, the recipient set is the union
  of the assignee (if set) and every user of the assignment list; it never contains the
  creator unless the creator is also the assignee or an assignment user, although the
  first-notification path does include a creator that is set.
\<close>

theorem reminder_recipients_exclude_creator:
  "set (reminderUserIds t) = given (assigneeUserId t) \<union> set (assignments t)
   \<and> distinct (reminderUserIds t)
   \<and> (createdById t = Some c \<and> assigneeUserId t \<noteq> Some c \<and> c \<notin> set (assignments t)
        \<longrightarrow> c \<notin> set (reminderUserIds t))
   \<and> (createdById t = Some c \<and> c \<noteq> [] \<longrightarrow> c \<in> set (overdueUserIds t))
   \<and> notifications (snd (reminderStep e now t w)) =
       notifications w @
         (if reminderUserIds t = [] \<or> createForUsersFails e (reminderUserIds t) (reminderPayload now t)
          then [] else [(reminderUserIds t, reminderPayload now t)])"
proof (intro conjI)
  show "createdById t = Some c \<and> assigneeUserId t \<noteq> Some c \<and> c \<notin> set (assignments t)
        \<longrightarrow> c \<notin> set (reminderUserIds t)"
    by (auto simp: set_reminderUserIds given_def split: option.splits if_splits)
  show "createdById t = Some c \<and> c \<noteq> [] \<longrightarrow> c \<in> set (overdueUserIds t)"
    by (auto simp: set_overdueUserIds given_def)
  show "notifications (snd (reminderStep e now t w)) =
       notifications w @
         (if reminderUserIds t = [] \<or> createForUsersFails e (reminderUserIds t) (reminderPayload now t)
          then [] else [(reminderUserIds t, reminderPayload now t)])"
    by (simp add: reminderStep_def createForUsers_def markNotified_def invoke_def Let_def
          case_prod_beta)
qed (rule set_reminderUserIds distinct_reminderUserIds)+

theorem reminder_recipients_exclude_creator_witness:
  "createdById sampleTask = Some ''U9'' \<and> assigneeUserId sampleTask \<noteq> Some ''U9''
   \<and> ''U9'' \<notin> set (assignments sampleTask)
   \<and> ''U9'' \<notin> set (reminderUserIds sampleTask)
   \<and> ''U9'' \<in> set (overdueUserIds sampleTask)
   \<and> set (reminderUserIds sampleTask) = {''U1'', ''U2''}"
proof -
  have c: "createdById sampleTask = Some ''U9'' \<and> assigneeUserId sampleTask \<noteq> Some ''U9''
      \<and> ''U9'' \<notin> set (assignments sampleTask)"
    by (simp add: sampleTask_def)
  have n: "''U9'' \<noteq> []" by simp
  from reminder_recipients_exclude_creator[of sampleTask "''U9''" quietEnv 0 emptyWorld] c n
  have "''U9'' \<notin> set (reminderUserIds sampleTask)"
    and "''U9'' \<in> set (overdueUserIds sampleTask)"
    and "set (reminderUserIds sampleTask) = given (assigneeUserId sampleTask) \<union> set (assignments sampleTask)"
    by blast+
  then show ?thesis using c by (auto simp: sampleTask_def given_def)
qed

subsection \<open>Elapsed days in the reminder\<close>

text \<open>
  C6. In the daily reminder scan the day count embedded in the message is
  \<open>ceil((now - dueDate) / 1 day)\<close>, the least number of whole days covering the
  delay; a task due 50 hours ago yields 3.
\<close>

theorem reminder_days_overdue:
  assumes "dueDate t = Some d"
  shows "daysDiff now t = \<lceil>real_of_int (now - d) / 86400000\<rceil>
       \<and> (daysDiff now t - 1) * 86400000 < now - d
       \<and> now - d \<le> daysDiff now t * 86400000
       \<and> (now - d = 50 * 3600000 \<longrightarrow> daysDiff now t = 3)
       \<and> p_body (reminderPayload now t) =
           ''Task '' @ [CHR 0x22] @ title t @ [CHR 0x22] @ '' is ''
             @ show_int (daysDiff now t) @ '' days overdue''"
proof -
  have d: "daysDiff now t = ceil_div (now - d) 86400000"
    using assms by (simp add: daysDiff_def)
  have c: "(daysDiff now t - 1) * 86400000 < now - d \<and> now - d \<le> daysDiff now t * 86400000"
    using ceil_div_char[of 86400000 "now - d" "daysDiff now t"] d by simp
  have f: "now - d = 50 * 3600000 \<longrightarrow> daysDiff now t = 3"
    using ceil_div_char[of 86400000 "now - d" 3] d by auto
  show ?thesis using d c f
    by (simp add: ceil_div_def reminderPayload_def quote_chr_def)
qed

theorem reminder_days_overdue_witness:
  "dueDate sampleTask = Some 1000
   \<and> 180001000 - 1000 = (50 * 3600000 :: int)
   \<and> daysDiff 180001000 sampleTask = 3
   \<and> p_body (reminderPayload 180001000 sampleTask) =
       ''Task '' @ [CHR 0x22] @ ''Report'' @ [CHR 0x22] @ '' is 3 days overdue''"
proof -
  have d: "dueDate sampleTask = Some 1000" by (simp add: sampleTask_def)
  have s: "show_int 3 = ''3''" by (simp add: show_int_def show_nat.simps)
  show ?thesis
    using reminder_days_overdue[OF d, of 180001000] d s by (simp add: sampleTask_def)
qed

lemma extname_report: "extname ''report.pdf'' = ''.pdf''"
  by code_simp

lemma lower_pdf: "toLowerCase ''.pdf'' = ''.pdf''"
  by code_simp

subsection \<open>Upload validation and MIME types\<close>

text \<open>
  C9. The claim is that validation rejects every file whose MIME type is outside the
  allowed set. \<open>validateFile\<close> never reads the MIME type: a file named
  \<open>report.pdf\<close> of type \<open>application/x-msdownload\<close>, which is not in
  \<open>ALLOWED_MIMES\<close>, is accepted, and changing the MIME type of any file leaves the
  verdict as it was.
\<close>

theorem validateFile_ignores_mimetype:
  "validateFile 25 \<lparr> originalname = ''report.pdf'', mimetype = ''application/x-msdownload'',
                     size = 1000 \<rparr> = Inr ()
   \<and> ''application/x-msdownload'' \<notin> set ALLOWED_MIMES
   \<and> validateFile m (f\<lparr> mimetype := x \<rparr>) = validateFile m f"
proof (intro conjI)
  show "validateFile 25 \<lparr> originalname = ''report.pdf'', mimetype = ''application/x-msdownload'',
                     size = 1000 \<rparr> = Inr ()"
    by (simp add: validateFile_def extname_report lower_pdf BLOCKED_EXTENSIONS_def
        ALLOWED_EXTENSIONS_def maxFileSize_def)
  show "''application/x-msdownload'' \<notin> set ALLOWED_MIMES"
    by (simp add: ALLOWED_MIMES_def)
  show "validateFile m (f\<lparr> mimetype := x \<rparr>) = validateFile m f"
    by (simp add: validateFile_def Let_def)
qed

subsection \<open>Tables with distinct ids\<close>

lemma same_id_same_row:
  "distinct (map task_id rows) \<Longrightarrow> r \<in> set rows \<Longrightarrow> s \<in> set rows \<Longrightarrow> task_id r = task_id s \<Longrightarrow> r = s"
  by (meson distinct_map inj_onD)

lemma stampAll_rows:
  assumes "distinct (map task_id rows)" "set sel \<subseteq> set rows"
  shows "stampAll (map task_id sel) ts rows = stampRows sel ts rows"
proof -
  have "\<And>r. r \<in> set rows \<Longrightarrow> (task_id r \<in> set (map task_id sel)) = (r \<in> set sel)"
    using assms same_id_same_row[OF assms(1)] by auto
  then show ?thesis by (simp add: stampAll_def stampRows_def stampRow_def)
qed

lemma head_id_fresh:
  assumes "distinct (map task_id (a # rows))" "r \<in> set rows"
  shows "task_id r \<noteq> task_id a"
proof -
  have "task_id a \<notin> set (map task_id rows)" using assms(1) by simp
  moreover have "task_id r \<in> set (map task_id rows)" using assms(2) by simp
  ultimately show ?thesis by metis
qed

lemma filter_id_single:
  "distinct (map task_id rows) \<Longrightarrow> t \<in> set rows \<Longrightarrow> filter (\<lambda>r. task_id r = task_id t) rows = [t]"
proof (induction rows)
  case Nil
  then show ?case by simp
next
  case (Cons a rows)
  show ?case
  proof (cases "a = t")
    case True
    have "filter (\<lambda>r. task_id r = task_id t) rows = []"
      using head_id_fresh[OF Cons.prems(1)] True by (simp add: filter_empty_conv)
    then show ?thesis using True by simp
  next
    case False
    then have "task_id a \<noteq> task_id t" using Cons.prems by auto
    then show ?thesis using Cons False by auto
  qed
qed

lemma filter_id_stampRows:
  assumes "distinct (map task_id rows)" "t \<in> set rows"
  shows "filter (\<lambda>r. task_id r = task_id t) (stampRows sel ts rows) =
           [if t \<in> set sel then stampRow ts t else t]"
proof -
  have "filter (\<lambda>r. task_id r = task_id t) (stampRows sel ts rows) =
          map (\<lambda>r. if r \<in> set sel then stampRow ts r else r) (filter (\<lambda>r. task_id r = task_id t) rows)"
    by (simp add: stampRows_def filter_map comp_def stampRow_def if_distrib cong: if_cong)
  then show ?thesis using filter_id_single[OF assms] by simp
qed

lemma filter_not_in_prefix:
  "set ys \<inter> set zs = {} \<Longrightarrow> filter (\<lambda>r. r \<notin> set ys) (ys @ zs) = zs"
  by (auto simp: filter_empty_conv filter_id_conv)

lemma filter_not_in_take:
  assumes "distinct xs"
  shows "filter (\<lambda>r. r \<notin> set (take n xs)) xs = drop n xs"
proof -
  have "distinct (take n xs @ drop n xs)" using assms by simp
  then have disj: "set (take n xs) \<inter> set (drop n xs) = {}" by (simp only: distinct_append)
  have "filter (\<lambda>r. r \<notin> set (take n xs)) xs =
          filter (\<lambda>r. r \<notin> set (take n xs)) (take n xs @ drop n xs)" by simp
  also have "\<dots> = drop n xs" by (rule filter_not_in_prefix[OF disj])
  finally show ?thesis .
qed

lemma filter_stampRows:
  assumes np: "\<And>r. \<not> P (stampRow ts r)"
  shows "filter P (stampRows sel ts rows) = filter (\<lambda>r. r \<notin> set sel \<and> P r) rows"
  by (induction rows) (auto simp: stampRows_def np)

lemma newlyOverdue_stampRow: "\<not> newlyOverdue now (stampRow ts r)"
  by (simp add: newlyOverdue_def stampRow_def)

lemma remaining_after_batch:
  assumes "distinct (map task_id rows)"
  shows "filter (newlyOverdue now) (stampRows (take n (filter (newlyOverdue now) rows)) ts rows) =
           drop n (filter (newlyOverdue now) rows)"
proof -
  let ?P = "newlyOverdue now"
  have d: "distinct (filter ?P rows)" using assms by (simp add: distinct_map)
  have "filter ?P (stampRows (take n (filter ?P rows)) ts rows) =
          filter (\<lambda>r. r \<notin> set (take n (filter ?P rows)) \<and> ?P r) rows"
    by (rule filter_stampRows) (rule newlyOverdue_stampRow)
  also have "\<dots> = filter (\<lambda>r. r \<notin> set (take n (filter ?P rows))) (filter ?P rows)"
    by (simp add: conj_commute)
  also have "\<dots> = drop n (filter ?P rows)" by (rule filter_not_in_take[OF d])
  finally show ?thesis .
qed

lemma note_entity: "n \<in> set (overdueNote t) \<Longrightarrow> p_entityId (snd n) = task_id t"
  by (auto simp: overdueNote_def overduePayload_def split: if_splits)


lemma rnote_entity: "n \<in> set (reminderNote now t) \<Longrightarrow> p_entityId (snd n) = task_id t"
  by (auto simp: reminderNote_def reminderPayload_def split: if_splits)

lemma rnoteF_entity: "n \<in> set (reminderNoteF e now t) \<Longrightarrow> p_entityId (snd n) = task_id t"
  by (auto simp: reminderNoteF_def rnote_entity split: if_splits)

lemma filter_notes_single:
  assumes ent: "\<And>r n. n \<in> set (msg r) \<Longrightarrow> p_entityId (snd n) = task_id r"
  shows "distinct (map task_id sel) \<Longrightarrow> t \<in> set sel \<Longrightarrow>
         filter (\<lambda>n. p_entityId (snd n) = task_id t) (concat (map msg sel)) = msg t"
proof (induction sel)
  case Nil
  then show ?case by simp
next
  case (Cons a sel)
  show ?case
  proof (cases "a = t")
    case True
    have "\<And>n. n \<in> set (concat (map msg sel)) \<Longrightarrow> p_entityId (snd n) \<noteq> task_id t"
    proof -
      fix n assume "n \<in> set (concat (map msg sel))"
      then obtain r where r: "r \<in> set sel" "n \<in> set (msg r)" by auto
      have "p_entityId (snd n) = task_id r" using ent r(2) by blast
      moreover have "task_id r \<noteq> task_id t"
        using head_id_fresh[OF Cons.prems(1) r(1)] True by simp
      ultimately show "p_entityId (snd n) \<noteq> task_id t" by simp
    qed
    then have "filter (\<lambda>n. p_entityId (snd n) = task_id t) (concat (map msg sel)) = []"
      by (simp add: filter_empty_conv)
    moreover have "filter (\<lambda>n. p_entityId (snd n) = task_id t) (msg t) = msg t"
      using ent by (simp add: filter_id_conv)
    ultimately show ?thesis using True by simp
  next
    case False
    then have ne: "task_id a \<noteq> task_id t" using Cons.prems by auto
    have "filter (\<lambda>n. p_entityId (snd n) = task_id t) (msg a) = []"
      using ne ent by (fastforce simp: filter_empty_conv)
    then show ?thesis using Cons False by auto
  qed
qed

lemma batch_subset: "set (take n (filter P rows)) \<subseteq> set rows"
  by (auto dest: in_set_takeD)

lemma batch_distinct_ids: "distinct (map task_id rows) \<Longrightarrow> distinct (map task_id (take n (filter P rows)))"
  by (simp add: distinct_map_filter distinct_take take_map[symmetric])

subsection \<open>The sample data\<close>

lemma backlogTask_id_inj: "(task_id (backlogTask i) = task_id (backlogTask j)) = (i = j)"
proof
  assume "task_id (backlogTask i) = task_id (backlogTask j)"
  then have "length (replicate i (CHR ''I'')) = length (replicate j (CHR ''I''))"
    by (simp add: backlogTask_def)
  then show "i = j" by simp
qed simp

lemma backlog_distinct: "distinct (map task_id (tasks (backlogWorld n)))"
  by (simp add: backlogWorld_def distinct_map inj_on_def backlogTask_id_inj)

lemma backlog_newlyOverdue: "0 < now \<Longrightarrow> newlyOverdue now (backlogTask i)"
  by (simp add: newlyOverdue_def backlogTask_def)

lemma backlog_qualifying:
  "0 < now \<Longrightarrow> filter (newlyOverdue now) (map backlogTask xs) = map backlogTask xs"
  by (simp add: filter_id_conv backlog_newlyOverdue)

lemma quiet_overdueStepOk: "overdueStepOk quietEnv t"
  by (simp add: overdueStepOk_def notifyOk_def quietEnv_def list_all_iff)

lemma quiet_reminderStepOk: "reminderStepOk quietEnv now t"
  by (simp add: reminderStepOk_def remindOk_def quietEnv_def)

lemma quiet_detect_try: "fst (detectOverdueTasks_try quietEnv w) = Inr ()"
proof -
  have "runSpec (detectOverdueTasks_try quietEnv w) w (overdueBatch w) (int (latency quietEnv))
           (overdueStepOk quietEnv) (notifyOk quietEnv) overdueNote (overdueNoteF quietEnv)"
    by (rule detect_try_spec) (simp add: quietEnv_def)
  then show ?thesis by (simp add: runSpec_def quiet_overdueStepOk list_all_iff)
qed

subsection \<open>Runs that raise no error\<close>

lemma detect_clean_run:
  assumes d: "distinct (map task_id (tasks w))"
      and ok: "fst (detectOverdueTasks_try e w) = Inr ()"
  shows "tasks (snd (detectOverdueTasks e w)) = stampRows (overdueBatch w) (clock w) (tasks w)"
    and "newNotifications w (snd (detectOverdueTasks e w)) = concat (map overdueNote (overdueBatch w))"
    and "map snd (updatesOf (newCalls w (snd (detectOverdueTasks e w)))) =
           map (\<lambda>t. (task_id t, clock w)) (overdueBatch w)"
proof -
  have nf: "\<not> findManyFails e"
    using ok by (auto simp: detect_try_failed_query)
  have R: "runSpec (detectOverdueTasks_try e w) w (overdueBatch w) (int (latency e))
           (overdueStepOk e) (notifyOk e) overdueNote (overdueNoteF e)"
    by (rule detect_try_spec[OF nf])
  then have all: "list_all (overdueStepOk e) (overdueBatch w)" using ok by (simp add: runSpec_def)
  then have tw: "takeWhile (overdueStepOk e) (overdueBatch w) = overdueBatch w"
    and dw: "dropWhile (overdueStepOk e) (overdueBatch w) = []"
    by (simp_all add: list_all_iff)
  have sub: "set (overdueBatch w) \<subseteq> set (tasks w)" by (simp add: overdueBatch_def batch_subset)
  show "tasks (snd (detectOverdueTasks e w)) = stampRows (overdueBatch w) (clock w) (tasks w)"
    using R tw stampAll_rows[OF d sub] by (simp add: runSpec_def detect_catch)
  show "newNotifications w (snd (detectOverdueTasks e w)) = concat (map overdueNote (overdueBatch w))"
    using R tw dw by (simp add: runSpec_def detect_catch newNotifications_def)
  show "map snd (updatesOf (newCalls w (snd (detectOverdueTasks e w)))) =
           map (\<lambda>t. (task_id t, clock w)) (overdueBatch w)"
    using R tw dw by (simp add: runSpec_def detect_catch newCalls_def)
qed

subsection \<open>The first notification of a newly overdue task\<close>

text \<open>
  C1, as amended. The claim speaks of every task that is overdue, open, not deleted and
  not yet notified; the query takes at most 100 of them, so the statement holds for the
  tasks of the batch. In a run of the 15-minute scan that raises no error, over a table
  with distinct ids, every task of the batch (the first 100 qualifying rows) ends with
  \<open>lastOverdueNotifiedAt\<close> set to the time of the run, and the notifications the run
  created for it are exactly one, addressed to the union of assignee, creator and
  assignment users, when that union is not empty, and none when it is empty.
\<close>

theorem newly_overdue_task_notified_once:
  assumes "distinct (map task_id (tasks w))"
      and "fst (detectOverdueTasks_try e w) = Inr ()"
      and "t \<in> set (take 100 (filter (newlyOverdue (clock w)) (tasks w)))"
  shows "filter (\<lambda>r. task_id r = task_id t) (tasks (snd (detectOverdueTasks e w))) =
           [t\<lparr> lastOverdueNotifiedAt := Some (clock w) \<rparr>]
       \<and> filter (\<lambda>n. p_entityId (snd n) = task_id t)
           (newNotifications w (snd (detectOverdueTasks e w))) =
           (if overdueUserIds t = [] then [] else [(overdueUserIds t, overduePayload t)])
       \<and> set (overdueUserIds t) =
           given (assigneeUserId t) \<union> given (createdById t) \<union> set (assignments t)"
proof -
  have tb: "t \<in> set (overdueBatch w)" using assms(3) by (simp add: overdueBatch_def)
  then have tr: "t \<in> set (tasks w)" using batch_subset by (auto simp: overdueBatch_def dest: in_set_takeD)
  have dB: "distinct (map task_id (overdueBatch w))"
    using assms(1) by (simp add: overdueBatch_def batch_distinct_ids)
  have "filter (\<lambda>r. task_id r = task_id t) (tasks (snd (detectOverdueTasks e w))) = [stampRow (clock w) t]"
    using detect_clean_run(1)[OF assms(1,2)] filter_id_stampRows[OF assms(1) tr] tb by simp
  moreover have "filter (\<lambda>n. p_entityId (snd n) = task_id t)
           (newNotifications w (snd (detectOverdueTasks e w))) = overdueNote t"
    using detect_clean_run(2)[OF assms(1,2)] filter_notes_single[of overdueNote, OF note_entity dB tb]
    by simp
  ultimately show ?thesis
    by (simp add: stampRow_def overdueNote_def set_overdueUserIds)
qed

theorem newly_overdue_task_notified_once_witness:
  "distinct (map task_id (tasks (backlogWorld 2)))
   \<and> fst (detectOverdueTasks_try quietEnv (backlogWorld 2)) = Inr ()
   \<and> backlogTask 1 \<in> set (take 100 (filter (newlyOverdue (clock (backlogWorld 2))) (tasks (backlogWorld 2))))
   \<and> filter (\<lambda>r. task_id r = task_id (backlogTask 1))
        (tasks (snd (detectOverdueTasks quietEnv (backlogWorld 2)))) =
        [(backlogTask 1)\<lparr> lastOverdueNotifiedAt := Some 1000 \<rparr>]
   \<and> filter (\<lambda>n. p_entityId (snd n) = task_id (backlogTask 1))
        (newNotifications (backlogWorld 2) (snd (detectOverdueTasks quietEnv (backlogWorld 2)))) =
        [([''U1''], overduePayload (backlogTask 1))]
   \<and> distinct (map task_id (tasks orphanWorld))
   \<and> fst (detectOverdueTasks_try quietEnv orphanWorld) = Inr ()
   \<and> orphanTask \<in> set (take 100 (filter (newlyOverdue (clock orphanWorld)) (tasks orphanWorld)))
   \<and> overdueUserIds orphanTask = []
   \<and> filter (\<lambda>r. task_id r = task_id orphanTask)
        (tasks (snd (detectOverdueTasks quietEnv orphanWorld))) =
        [orphanTask\<lparr> lastOverdueNotifiedAt := Some 1000 \<rparr>]
   \<and> filter (\<lambda>n. p_entityId (snd n) = task_id orphanTask)
        (newNotifications orphanWorld (snd (detectOverdueTasks quietEnv orphanWorld))) = []"
proof -
  have c: "clock (backlogWorld 2) = 1000" by (simp add: backlogWorld_def)
  have m: "backlogTask 1 \<in> set (take 100 (filter (newlyOverdue (clock (backlogWorld 2))) (tasks (backlogWorld 2))))"
    by (simp add: backlogWorld_def backlog_qualifying)
  have u: "overdueUserIds (backlogTask 1) = [''U1'']"
    by (simp add: overdueUserIds_def backlogTask_def add_if_truthy_def truthy_def set_add_def)
  have A: "filter (\<lambda>r. task_id r = task_id (backlogTask 1))
        (tasks (snd (detectOverdueTasks quietEnv (backlogWorld 2)))) =
        [(backlogTask 1)\<lparr> lastOverdueNotifiedAt := Some 1000 \<rparr>]
   \<and> filter (\<lambda>n. p_entityId (snd n) = task_id (backlogTask 1))
        (newNotifications (backlogWorld 2) (snd (detectOverdueTasks quietEnv (backlogWorld 2)))) =
        [([''U1''], overduePayload (backlogTask 1))]"
    using newly_overdue_task_notified_once[OF backlog_distinct quiet_detect_try m] c u by simp
  have d': "distinct (map task_id (tasks orphanWorld))"
    by (simp add: orphanWorld_def orphanTask_def backlogTask_def)
  have c': "clock orphanWorld = 1000" by (simp add: orphanWorld_def)
  have m': "orphanTask \<in> set (take 100 (filter (newlyOverdue (clock orphanWorld)) (tasks orphanWorld)))"
    by (simp add: orphanWorld_def orphanTask_def newlyOverdue_def backlogTask_def)
  have u': "overdueUserIds orphanTask = []"
    by (simp add: overdueUserIds_def orphanTask_def backlogTask_def add_if_truthy_def)
  have B: "filter (\<lambda>r. task_id r = task_id orphanTask)
        (tasks (snd (detectOverdueTasks quietEnv orphanWorld))) =
        [orphanTask\<lparr> lastOverdueNotifiedAt := Some 1000 \<rparr>]
   \<and> filter (\<lambda>n. p_entityId (snd n) = task_id orphanTask)
        (newNotifications orphanWorld (snd (detectOverdueTasks quietEnv orphanWorld))) = []"
    using newly_overdue_task_notified_once[OF d' quiet_detect_try m'] c' u' by simp
  show ?thesis
    using backlog_distinct[of 2] quiet_detect_try[of "backlogWorld 2"] m A d'
      quiet_detect_try[of orphanWorld] m' u' B
    by simp
qed


lemma backlogTask_inj: "(backlogTask i = backlogTask j) = (i = j)"
  using backlogTask_id_inj[of i j] by auto

lemma backlog_batch:
  "overdueBatch (backlogWorld n) = map backlogTask [0..<min n 100]"
proof -
  have "take 100 [0..<n] = [0..<min n 100]"
    by (cases "100 \<le> n") (simp_all add: min_def)
  then show ?thesis
    by (simp add: overdueBatch_def backlogWorld_def backlog_qualifying take_map)
qed

text \<open>
  C1, as stated, fails: with 101 qualifying tasks and no error, the 101st is still
  unstamped after the run.
\<close>

theorem every_overdue_task_stamped_counterexample:
  "tasks (backlogWorld 101) ! 100 = backlogTask 100
   \<and> newlyOverdue (clock (backlogWorld 101)) (backlogTask 100)
   \<and> fst (detectOverdueTasks_try quietEnv (backlogWorld 101)) = Inr ()
   \<and> tasks (snd (detectOverdueTasks quietEnv (backlogWorld 101))) ! 100 = backlogTask 100
   \<and> lastOverdueNotifiedAt (backlogTask 100) = None"
proof -
  have r: "tasks (backlogWorld 101) ! 100 = backlogTask 100"
    by (simp add: backlogWorld_def)
  have n: "backlogTask 100 \<notin> set (overdueBatch (backlogWorld 101))"
    by (simp add: backlog_batch backlogTask_inj image_iff)
  have "tasks (snd (detectOverdueTasks quietEnv (backlogWorld 101))) =
          stampRows (overdueBatch (backlogWorld 101)) (clock (backlogWorld 101)) (tasks (backlogWorld 101))"
    by (rule detect_clean_run(1)[OF backlog_distinct quiet_detect_try])
  then have "tasks (snd (detectOverdueTasks quietEnv (backlogWorld 101))) ! 100 = backlogTask 100"
    using r n by (simp add: stampRows_def backlogWorld_def)
  moreover have "newlyOverdue (clock (backlogWorld 101)) (backlogTask 100)"
    by (simp add: backlog_newlyOverdue backlogWorld_def)
  moreover have "lastOverdueNotifiedAt (backlogTask 100) = None"
    by (simp add: backlogTask_def)
  ultimately show ?thesis
    using r quiet_detect_try[of "backlogWorld 101"] by simp
qed

subsection \<open>The clock when invocations take no time\<close>





subsection \<open>Runs that change nothing, and what a run may notify\<close>


lemma detect_failed_query:
  assumes "findManyFails e"
  shows "tasks (snd (detectOverdueTasks e w)) = tasks w"
    and "newNotifications w (snd (detectOverdueTasks e w)) = []"
    and "updatesOf (newCalls w (snd (detectOverdueTasks e w))) = []"
  using assms
  by (simp_all add: detect_catch detect_try_failed_query invoke_def newNotifications_def newCalls_def)


subsection \<open>A second scan\<close>










lemmas run_defs = detectOverdueTasks_def detectOverdueTasks_try_def findMany_def invoke_def
  logInfo_def logError_def overdueStep_def createForUsers_def emitToUser_def markNotified_def
  stamp_def newlyOverdue_def overdueUserIds_def add_if_truthy_def truthy_def set_add_def
  sendDailyOverdueReminders_def sendDailyOverdueReminders_try_def reminderStep_def
  stillOverdue_def reminderUserIds_def




subsection \<open>Runs abandoned at a task\<close>

lemma takeWhile_split:
  "list_all P xs \<Longrightarrow> \<not> P y \<Longrightarrow> takeWhile P (xs @ y # ys) = xs \<and> dropWhile P (xs @ y # ys) = y # ys"
  by (induction xs) auto

lemma detect_catch_logs:
  "fst (detectOverdueTasks_try e w) = Inl err \<Longrightarrow>
   logs (snd (detectOverdueTasks e w)) =
     logs (snd (detectOverdueTasks_try e w)) @ [LogError ''Error in overdue task detection'' err]"
  by (simp add: detectOverdueTasks_def case_prod_beta logError_def)

lemma remind_catch_logs:
  "fst (sendDailyOverdueReminders_try e w) = Inl err \<Longrightarrow>
   logs (snd (sendDailyOverdueReminders e w)) =
     logs (snd (sendDailyOverdueReminders_try e w))
       @ [LogError ''Error sending daily overdue reminders'' err]"
  by (simp add: sendDailyOverdueReminders_def case_prod_beta logError_def)

lemma not_Inr_unit: "(r :: error + unit) \<noteq> Inr () \<Longrightarrow> \<exists>err. r = Inl err"
  by (cases r) auto

lemma aborted_rows:
  assumes d: "distinct (map task_id rows)"
      and b: "take n (filter P rows) = earlier @ failing # rest"
  shows "\<forall>t\<in>set earlier. filter (\<lambda>r. task_id r = task_id t) (stampRows earlier ts rows) = [stampRow ts t]"
    and "\<forall>t\<in>set (failing # rest). filter (\<lambda>r. task_id r = task_id t) (stampRows earlier ts rows) = [t]"
    and "\<forall>t\<in>set (failing # rest). P t"
    and "set earlier \<subseteq> set rows"
    and "distinct (map task_id (earlier @ failing # rest))"
proof -
  have sub: "set (earlier @ failing # rest) \<subseteq> set rows"
    using batch_subset[of n P rows] b by simp
  have dist: "distinct (map task_id (earlier @ failing # rest))"
    using batch_distinct_ids[OF d, of n P] b by simp
  then have dd: "distinct (earlier @ failing # rest)" by (simp only: distinct_map)
  show "\<forall>t\<in>set earlier. filter (\<lambda>r. task_id r = task_id t) (stampRows earlier ts rows) = [stampRow ts t]"
  proof
    fix t assume t: "t \<in> set earlier"
    then have "t \<in> set rows" using sub by auto
    from filter_id_stampRows[OF d this, of earlier ts] t
    show "filter (\<lambda>r. task_id r = task_id t) (stampRows earlier ts rows) = [stampRow ts t]" by simp
  qed
  show "\<forall>t\<in>set (failing # rest). filter (\<lambda>r. task_id r = task_id t) (stampRows earlier ts rows) = [t]"
  proof
    fix t assume t: "t \<in> set (failing # rest)"
    then have tr: "t \<in> set rows" using sub by auto
    have "t \<notin> set earlier" using dd t by auto
    with filter_id_stampRows[OF d tr, of earlier ts]
    show "filter (\<lambda>r. task_id r = task_id t) (stampRows earlier ts rows) = [t]" by simp
  qed
  show "\<forall>t\<in>set (failing # rest). P t"
  proof
    fix t assume "t \<in> set (failing # rest)"
    then have "t \<in> set (take n (filter P rows))" unfolding b by auto
    then have "t \<in> set (filter P rows)" by (rule in_set_takeD)
    then show "P t" by simp
  qed
  show "set earlier \<subseteq> set rows" using sub by simp
  show "distinct (map task_id (earlier @ failing # rest))" by (rule dist)
qed

lemma detect_aborted_run:
  assumes d: "distinct (map task_id (tasks w))"
      and nf: "\<not> findManyFails e"
      and b: "take 100 (filter (newlyOverdue (clock w)) (tasks w)) = earlier @ failing # rest"
      and ok: "list_all (overdueStepOk e) earlier"
      and bad: "\<not> overdueStepOk e failing"
  shows "\<exists>err. fst (detectOverdueTasks_try e w) = Inl err
           \<and> logs (snd (detectOverdueTasks e w)) =
               logs (snd (detectOverdueTasks_try e w))
                 @ [LogError ''Error in overdue task detection'' err]"
    and "tasks (snd (detectOverdueTasks e w)) = stampRows earlier (clock w) (tasks w)"
    and "newNotifications w (snd (detectOverdueTasks e w)) =
           concat (map overdueNote earlier) @ overdueNoteF e failing"
    and "map snd (updatesOf (newCalls w (snd (detectOverdueTasks e w)))) =
           map (\<lambda>t. (task_id t, clock w)) earlier
             @ (if notifyOk e failing then [(task_id failing, clock w)] else [])"
proof -
  have B: "overdueBatch w = earlier @ failing # rest" using b by (simp add: overdueBatch_def)
  have R: "runSpec (detectOverdueTasks_try e w) w (earlier @ failing # rest) (int (latency e))
           (overdueStepOk e) (notifyOk e) overdueNote (overdueNoteF e)"
    using detect_try_spec[OF nf, of w] B by simp
  have tw: "takeWhile (overdueStepOk e) (earlier @ failing # rest) = earlier"
    and dw: "dropWhile (overdueStepOk e) (earlier @ failing # rest) = failing # rest"
    using takeWhile_split[OF ok bad] by simp_all
  have "fst (detectOverdueTasks_try e w) \<noteq> Inr ()"
    using R bad by (simp add: runSpec_def)
  then obtain err where err: "fst (detectOverdueTasks_try e w) = Inl err"
    using not_Inr_unit by auto
  show "\<exists>err. fst (detectOverdueTasks_try e w) = Inl err
           \<and> logs (snd (detectOverdueTasks e w)) =
               logs (snd (detectOverdueTasks_try e w))
                 @ [LogError ''Error in overdue task detection'' err]"
    using err detect_catch_logs[OF err] by simp
  have sub: "set earlier \<subseteq> set (tasks w)" by (rule aborted_rows(4)[OF d b])
  show "tasks (snd (detectOverdueTasks e w)) = stampRows earlier (clock w) (tasks w)"
    using R stampAll_rows[OF d sub] unfolding runSpec_def tw by (simp add: detect_catch)
  show "newNotifications w (snd (detectOverdueTasks e w)) =
           concat (map overdueNote earlier) @ overdueNoteF e failing"
    using R unfolding runSpec_def tw dw by (simp add: detect_catch newNotifications_def)
  show "map snd (updatesOf (newCalls w (snd (detectOverdueTasks e w)))) =
           map (\<lambda>t. (task_id t, clock w)) earlier
             @ (if notifyOk e failing then [(task_id failing, clock w)] else [])"
    using R unfolding runSpec_def tw dw by (simp add: detect_catch newCalls_def)
qed

lemma remind_aborted_run:
  assumes d: "distinct (map task_id (tasks w))"
      and nf: "\<not> findManyFails e"
      and b: "take 200 (filter (stillOverdue (clock w)) (tasks w)) = earlier @ failing # rest"
      and ok: "list_all (reminderStepOk e (clock w)) earlier"
      and bad: "\<not> reminderStepOk e (clock w) failing"
  shows "\<exists>err. fst (sendDailyOverdueReminders_try e w) = Inl err
           \<and> logs (snd (sendDailyOverdueReminders e w)) =
               logs (snd (sendDailyOverdueReminders_try e w))
                 @ [LogError ''Error sending daily overdue reminders'' err]"
    and "tasks (snd (sendDailyOverdueReminders e w)) = stampRows earlier (clock w) (tasks w)"
    and "newNotifications w (snd (sendDailyOverdueReminders e w)) =
           concat (map (reminderNote (clock w)) earlier) @ reminderNoteF e (clock w) failing"
    and "map snd (updatesOf (newCalls w (snd (sendDailyOverdueReminders e w)))) =
           map (\<lambda>t. (task_id t, clock w)) earlier
             @ (if remindOk e (clock w) failing then [(task_id failing, clock w)] else [])"
proof -
  have B: "reminderBatch w = earlier @ failing # rest" using b by (simp add: reminderBatch_def)
  have R: "runSpec (sendDailyOverdueReminders_try e w) w (earlier @ failing # rest) (int (latency e))
           (reminderStepOk e (clock w)) (remindOk e (clock w))
           (reminderNote (clock w)) (reminderNoteF e (clock w))"
    using remind_try_spec[OF nf, of w] B by simp
  have tw: "takeWhile (reminderStepOk e (clock w)) (earlier @ failing # rest) = earlier"
    and dw: "dropWhile (reminderStepOk e (clock w)) (earlier @ failing # rest) = failing # rest"
    using takeWhile_split[OF ok bad] by simp_all
  have "fst (sendDailyOverdueReminders_try e w) \<noteq> Inr ()"
    using R bad by (simp add: runSpec_def)
  then obtain err where err: "fst (sendDailyOverdueReminders_try e w) = Inl err"
    using not_Inr_unit by auto
  show "\<exists>err. fst (sendDailyOverdueReminders_try e w) = Inl err
           \<and> logs (snd (sendDailyOverdueReminders e w)) =
               logs (snd (sendDailyOverdueReminders_try e w))
                 @ [LogError ''Error sending daily overdue reminders'' err]"
    using err remind_catch_logs[OF err] by simp
  have sub: "set earlier \<subseteq> set (tasks w)" by (rule aborted_rows(4)[OF d b])
  show "tasks (snd (sendDailyOverdueReminders e w)) = stampRows earlier (clock w) (tasks w)"
    using R stampAll_rows[OF d sub] unfolding runSpec_def tw by (simp add: remind_catch)
  show "newNotifications w (snd (sendDailyOverdueReminders e w)) =
           concat (map (reminderNote (clock w)) earlier) @ reminderNoteF e (clock w) failing"
    using R unfolding runSpec_def tw dw by (simp add: remind_catch newNotifications_def)
  show "map snd (updatesOf (newCalls w (snd (sendDailyOverdueReminders e w)))) =
           map (\<lambda>t. (task_id t, clock w)) earlier
             @ (if remindOk e (clock w) failing then [(task_id failing, clock w)] else [])"
    using R unfolding runSpec_def tw dw by (simp add: remind_catch newCalls_def)
qed

lemma upt3: "[0..<3] = [0, 1, 2]"
  by (simp add: eval_nat_numeral)

lemma newlyOverdue_later: "newlyOverdue now t \<Longrightarrow> now \<le> now' \<Longrightarrow> newlyOverdue now' t"
  by (auto simp: newlyOverdue_def split: option.splits)

lemma stillOverdue_later: "stillOverdue now t \<Longrightarrow> now \<le> now' \<Longrightarrow> stillOverdue now' t"
  by (auto simp: stillOverdue_def split: option.splits)

lemma detect_failed_query_tasks:
  "findManyFails e \<Longrightarrow> tasks (snd (detectOverdueTasks e w)) = tasks w"
  by (simp add: detect_catch detect_try_failed_query invoke_def)

lemma remind_failed_query_tasks:
  "findManyFails e \<Longrightarrow> tasks (snd (sendDailyOverdueReminders e w)) = tasks w"
  by (simp add: remind_catch remind_try_failed_query invoke_def)

subsection \<open>Errors inside a scan\<close>

text \<open>
  C8, as amended. Neither scan ever raises to its caller. When the query raises, no task
  changes. When the loop body raises at a task of the batch, the error is logged and the
  rest of the run is dropped: the tasks before the failing one carry the stamp of this
  run, the failing task and the tasks not yet reached are as they were and are selected
  again at any later time by the same scan (with \<open>lastOverdueNotifiedAt\<close> null in
  the 15-minute scan, and with their earlier, non-null value in the daily scan), the
  sink holds notifications for the tasks before the failing one and at most for the
  failing one, and stamp updates were attempted for no task after it.
\<close>

theorem scan_errors_are_contained:
  "fst (detectOverdueTasks e w) = Inr ()
   \<and> fst (sendDailyOverdueReminders e w) = Inr ()
   \<and> (findManyFails e \<longrightarrow>
        tasks (snd (detectOverdueTasks e w)) = tasks w
      \<and> tasks (snd (sendDailyOverdueReminders e w)) = tasks w)
   \<and> (distinct (map task_id (tasks w)) \<and> \<not> findManyFails e
        \<and> take 100 (filter (newlyOverdue (clock w)) (tasks w)) = earlier @ failing # rest
        \<and> list_all (overdueStepOk e) earlier \<and> \<not> overdueStepOk e failing \<longrightarrow>
        (\<exists>err. fst (detectOverdueTasks_try e w) = Inl err
            \<and> logs (snd (detectOverdueTasks e w)) =
                logs (snd (detectOverdueTasks_try e w))
                  @ [LogError ''Error in overdue task detection'' err])
      \<and> (\<forall>t\<in>set earlier.
            filter (\<lambda>r. task_id r = task_id t) (tasks (snd (detectOverdueTasks e w))) =
              [t\<lparr> lastOverdueNotifiedAt := Some (clock w) \<rparr>])
      \<and> (\<forall>t\<in>set (failing # rest).
            filter (\<lambda>r. task_id r = task_id t) (tasks (snd (detectOverdueTasks e w))) = [t]
          \<and> (clock w \<le> later \<longrightarrow> newlyOverdue later t))
      \<and> newNotifications w (snd (detectOverdueTasks e w)) =
          concat (map overdueNote earlier) @ overdueNoteF e failing
      \<and> map snd (updatesOf (newCalls w (snd (detectOverdueTasks e w)))) =
          map (\<lambda>t. (task_id t, clock w)) earlier
            @ (if notifyOk e failing then [(task_id failing, clock w)] else []))
   \<and> (distinct (map task_id (tasks w)) \<and> \<not> findManyFails e
        \<and> take 200 (filter (stillOverdue (clock w)) (tasks w)) = earlier @ failing # rest
        \<and> list_all (reminderStepOk e (clock w)) earlier \<and> \<not> reminderStepOk e (clock w) failing \<longrightarrow>
        (\<exists>err. fst (sendDailyOverdueReminders_try e w) = Inl err
            \<and> logs (snd (sendDailyOverdueReminders e w)) =
                logs (snd (sendDailyOverdueReminders_try e w))
                  @ [LogError ''Error sending daily overdue reminders'' err])
      \<and> (\<forall>t\<in>set earlier.
            filter (\<lambda>r. task_id r = task_id t) (tasks (snd (sendDailyOverdueReminders e w))) =
              [t\<lparr> lastOverdueNotifiedAt := Some (clock w) \<rparr>])
      \<and> (\<forall>t\<in>set (failing # rest).
            filter (\<lambda>r. task_id r = task_id t) (tasks (snd (sendDailyOverdueReminders e w))) = [t]
          \<and> (clock w \<le> later \<longrightarrow> stillOverdue later t))
      \<and> newNotifications w (snd (sendDailyOverdueReminders e w)) =
          concat (map (reminderNote (clock w)) earlier) @ reminderNoteF e (clock w) failing
      \<and> map snd (updatesOf (newCalls w (snd (sendDailyOverdueReminders e w)))) =
          map (\<lambda>t. (task_id t, clock w)) earlier
            @ (if remindOk e (clock w) failing then [(task_id failing, clock w)] else []))"
proof (intro conjI impI)
  show "fst (detectOverdueTasks e w) = Inr ()" by (rule detect_catch(1))
  show "fst (sendDailyOverdueReminders e w) = Inr ()" by (rule remind_catch(1))
  show "tasks (snd (detectOverdueTasks e w)) = tasks w" if "findManyFails e"
    using that by (rule detect_failed_query_tasks)
  show "tasks (snd (sendDailyOverdueReminders e w)) = tasks w" if "findManyFails e"
    using that by (rule remind_failed_query_tasks)
next
  assume h: "distinct (map task_id (tasks w)) \<and> \<not> findManyFails e
        \<and> take 100 (filter (newlyOverdue (clock w)) (tasks w)) = earlier @ failing # rest
        \<and> list_all (overdueStepOk e) earlier \<and> \<not> overdueStepOk e failing"
  then have d: "distinct (map task_id (tasks w))" and nf: "\<not> findManyFails e"
    and b: "take 100 (filter (newlyOverdue (clock w)) (tasks w)) = earlier @ failing # rest"
    and ok: "list_all (overdueStepOk e) earlier" and bad: "\<not> overdueStepOk e failing"
    by simp_all
  note run = detect_aborted_run[OF d nf b ok bad]
  note rows = aborted_rows(1)[OF d b, of "clock w"] aborted_rows(2)[OF d b, of "clock w"]
    aborted_rows(3)[OF d b]
  show "\<exists>err. fst (detectOverdueTasks_try e w) = Inl err
            \<and> logs (snd (detectOverdueTasks e w)) =
                logs (snd (detectOverdueTasks_try e w))
                  @ [LogError ''Error in overdue task detection'' err]"
    by (rule run(1))
  show "\<forall>t\<in>set earlier.
            filter (\<lambda>r. task_id r = task_id t) (tasks (snd (detectOverdueTasks e w))) =
              [t\<lparr> lastOverdueNotifiedAt := Some (clock w) \<rparr>]"
    using rows(1) unfolding run(2) by (simp add: stampRow_def)
  show "\<forall>t\<in>set (failing # rest).
            filter (\<lambda>r. task_id r = task_id t) (tasks (snd (detectOverdueTasks e w))) = [t]
          \<and> (clock w \<le> later \<longrightarrow> newlyOverdue later t)"
    using rows(2,3) newlyOverdue_later[of "clock w" _ later] unfolding run(2) by simp
  show "newNotifications w (snd (detectOverdueTasks e w)) =
          concat (map overdueNote earlier) @ overdueNoteF e failing"
    by (rule run(3))
  show "map snd (updatesOf (newCalls w (snd (detectOverdueTasks e w)))) =
          map (\<lambda>t. (task_id t, clock w)) earlier
            @ (if notifyOk e failing then [(task_id failing, clock w)] else [])"
    by (rule run(4))
next
  assume h: "distinct (map task_id (tasks w)) \<and> \<not> findManyFails e
        \<and> take 200 (filter (stillOverdue (clock w)) (tasks w)) = earlier @ failing # rest
        \<and> list_all (reminderStepOk e (clock w)) earlier \<and> \<not> reminderStepOk e (clock w) failing"
  then have d: "distinct (map task_id (tasks w))" and nf: "\<not> findManyFails e"
    and b: "take 200 (filter (stillOverdue (clock w)) (tasks w)) = earlier @ failing # rest"
    and ok: "list_all (reminderStepOk e (clock w)) earlier"
    and bad: "\<not> reminderStepOk e (clock w) failing"
    by simp_all
  note run = remind_aborted_run[OF d nf b ok bad]
  note rows = aborted_rows(1)[OF d b, of "clock w"] aborted_rows(2)[OF d b, of "clock w"]
    aborted_rows(3)[OF d b]
  show "\<exists>err. fst (sendDailyOverdueReminders_try e w) = Inl err
            \<and> logs (snd (sendDailyOverdueReminders e w)) =
                logs (snd (sendDailyOverdueReminders_try e w))
                  @ [LogError ''Error sending daily overdue reminders'' err]"
    by (rule run(1))
  show "\<forall>t\<in>set earlier.
            filter (\<lambda>r. task_id r = task_id t) (tasks (snd (sendDailyOverdueReminders e w))) =
              [t\<lparr> lastOverdueNotifiedAt := Some (clock w) \<rparr>]"
    using rows(1) unfolding run(2) by (simp add: stampRow_def)
  show "\<forall>t\<in>set (failing # rest).
            filter (\<lambda>r. task_id r = task_id t) (tasks (snd (sendDailyOverdueReminders e w))) = [t]
          \<and> (clock w \<le> later \<longrightarrow> stillOverdue later t)"
    using rows(2,3) stillOverdue_later[of "clock w" _ later] unfolding run(2) by simp
  show "newNotifications w (snd (sendDailyOverdueReminders e w)) =
          concat (map (reminderNote (clock w)) earlier) @ reminderNoteF e (clock w) failing"
    by (rule run(3))
  show "map snd (updatesOf (newCalls w (snd (sendDailyOverdueReminders e w)))) =
          map (\<lambda>t. (task_id t, clock w)) earlier
            @ (if remindOk e (clock w) failing then [(task_id failing, clock w)] else [])"
    by (rule run(4))
qed

lemma sinkFailsAt_ok:
  "overdueStepOk (sinkFailsAt tid) t = (overdueUserIds t = [] \<or> task_id t \<noteq> tid)"
  by (auto simp: overdueStepOk_def notifyOk_def sinkFailsAt_def quietEnv_def overduePayload_def
        list_all_iff)

lemma sinkFailsAt_rok:
  "reminderStepOk (sinkFailsAt tid) now t = (reminderUserIds t = [] \<or> task_id t \<noteq> tid)"
  by (auto simp: reminderStepOk_def remindOk_def sinkFailsAt_def quietEnv_def reminderPayload_def)

lemma backlog_users: "overdueUserIds (backlogTask n) = [''U1'']"
  by (simp add: overdueUserIds_def backlogTask_def add_if_truthy_def truthy_def set_add_def)

lemma reminded_users: "reminderUserIds (remindedTask n) = [''U1'']"
  by (simp add: reminderUserIds_def remindedTask_def backlogTask_def add_if_truthy_def truthy_def
        set_add_def)

theorem scan_errors_are_contained_witness:
  "distinct (map task_id (tasks (backlogWorld 3)))
   \<and> \<not> findManyFails (sinkFailsAt ''TI'')
   \<and> take 100 (filter (newlyOverdue (clock (backlogWorld 3))) (tasks (backlogWorld 3))) =
       [backlogTask 0] @ backlogTask 1 # [backlogTask 2]
   \<and> list_all (overdueStepOk (sinkFailsAt ''TI'')) [backlogTask 0]
   \<and> \<not> overdueStepOk (sinkFailsAt ''TI'') (backlogTask 1)
   \<and> fst (detectOverdueTasks (sinkFailsAt ''TI'') (backlogWorld 3)) = Inr ()
   \<and> filter (\<lambda>r. task_id r = task_id (backlogTask 0))
        (tasks (snd (detectOverdueTasks (sinkFailsAt ''TI'') (backlogWorld 3)))) =
        [(backlogTask 0)\<lparr> lastOverdueNotifiedAt := Some 1000 \<rparr>]
   \<and> filter (\<lambda>r. task_id r = task_id (backlogTask 2))
        (tasks (snd (detectOverdueTasks (sinkFailsAt ''TI'') (backlogWorld 3)))) = [backlogTask 2]
   \<and> newlyOverdue 2000 (backlogTask 2)
   \<and> distinct (map task_id (tasks remindedWorld))
   \<and> take 200 (filter (stillOverdue (clock remindedWorld)) (tasks remindedWorld)) =
       [remindedTask 0] @ remindedTask 1 # [remindedTask 2]
   \<and> list_all (reminderStepOk (sinkFailsAt ''TI'') (clock remindedWorld)) [remindedTask 0]
   \<and> \<not> reminderStepOk (sinkFailsAt ''TI'') (clock remindedWorld) (remindedTask 1)
   \<and> fst (sendDailyOverdueReminders (sinkFailsAt ''TI'') remindedWorld) = Inr ()
   \<and> filter (\<lambda>r. task_id r = task_id (remindedTask 0))
        (tasks (snd (sendDailyOverdueReminders (sinkFailsAt ''TI'') remindedWorld))) =
        [(remindedTask 0)\<lparr> lastOverdueNotifiedAt := Some 1000 \<rparr>]
   \<and> filter (\<lambda>r. task_id r = task_id (remindedTask 2))
        (tasks (snd (sendDailyOverdueReminders (sinkFailsAt ''TI'') remindedWorld))) =
        [remindedTask 2]
   \<and> stillOverdue 2000 (remindedTask 2)"
proof -
  have nf: "\<not> findManyFails (sinkFailsAt ''TI'')" by (simp add: sinkFailsAt_def quietEnv_def)
  have c: "clock (backlogWorld 3) = 1000" by (simp add: backlogWorld_def)
  have b: "take 100 (filter (newlyOverdue (clock (backlogWorld 3))) (tasks (backlogWorld 3))) =
       [backlogTask 0] @ backlogTask 1 # [backlogTask 2]"
    by (simp add: backlogWorld_def upt3 backlog_newlyOverdue)
  have ok: "list_all (overdueStepOk (sinkFailsAt ''TI'')) [backlogTask 0]"
    by (simp add: sinkFailsAt_ok backlogTask_def)
  have bad: "\<not> overdueStepOk (sinkFailsAt ''TI'') (backlogTask 1)"
    by (simp add: sinkFailsAt_ok backlog_users) (simp add: backlogTask_def)
  have d': "distinct (map task_id (tasks remindedWorld))"
    by (simp add: remindedWorld_def remindedTask_def backlogTask_def eval_nat_numeral)
  have c': "clock remindedWorld = 1000" by (simp add: remindedWorld_def)
  have b': "take 200 (filter (stillOverdue (clock remindedWorld)) (tasks remindedWorld)) =
       [remindedTask 0] @ remindedTask 1 # [remindedTask 2]"
    by (simp add: remindedWorld_def stillOverdue_def remindedTask_def backlogTask_def)
  have ok': "list_all (reminderStepOk (sinkFailsAt ''TI'') (clock remindedWorld)) [remindedTask 0]"
    by (simp add: sinkFailsAt_rok remindedTask_def backlogTask_def)
  have bad': "\<not> reminderStepOk (sinkFailsAt ''TI'') (clock remindedWorld) (remindedTask 1)"
    by (simp add: sinkFailsAt_rok reminded_users) (simp add: remindedTask_def backlogTask_def)
  have l: "(1000::int) \<le> 2000" by simp
  note A = scan_errors_are_contained[of "sinkFailsAt ''TI''" "backlogWorld 3" "[backlogTask 0]"
      "backlogTask 1" "[backlogTask 2]" 2000]
  note B = scan_errors_are_contained[of "sinkFailsAt ''TI''" remindedWorld "[remindedTask 0]"
      "remindedTask 1" "[remindedTask 2]" 2000]
  have A15: "fst (detectOverdueTasks (sinkFailsAt ''TI'') (backlogWorld 3)) = Inr ()
   \<and> filter (\<lambda>r. task_id r = task_id (backlogTask 0))
        (tasks (snd (detectOverdueTasks (sinkFailsAt ''TI'') (backlogWorld 3)))) =
        [(backlogTask 0)\<lparr> lastOverdueNotifiedAt := Some 1000 \<rparr>]
   \<and> filter (\<lambda>r. task_id r = task_id (backlogTask 2))
        (tasks (snd (detectOverdueTasks (sinkFailsAt ''TI'') (backlogWorld 3)))) = [backlogTask 2]
   \<and> newlyOverdue 2000 (backlogTask 2)"
    using A backlog_distinct[of 3] nf b ok bad c by simp
  have Bd: "fst (sendDailyOverdueReminders (sinkFailsAt ''TI'') remindedWorld) = Inr ()
   \<and> filter (\<lambda>r. task_id r = task_id (remindedTask 0))
        (tasks (snd (sendDailyOverdueReminders (sinkFailsAt ''TI'') remindedWorld))) =
        [(remindedTask 0)\<lparr> lastOverdueNotifiedAt := Some 1000 \<rparr>]
   \<and> filter (\<lambda>r. task_id r = task_id (remindedTask 2))
        (tasks (snd (sendDailyOverdueReminders (sinkFailsAt ''TI'') remindedWorld))) =
        [remindedTask 2]
   \<and> stillOverdue 2000 (remindedTask 2)"
    using B d' nf b' ok' bad' c' by simp
  show ?thesis
    using backlog_distinct[of 3] nf b ok bad d' b' ok' bad' A15 Bd by simp
qed

text \<open>
  C8, as stated, fails in the daily scan, where the tasks not yet reached do not have a
  null \<open>lastOverdueNotifiedAt\<close>: the sink fails at the first of three reminded
  tasks, the run stops there, and the second task keeps the value 5 it had.
\<close>

theorem unreached_task_keeps_null_counterexample:
  "fst (sendDailyOverdueReminders_try (sinkFailsAt ''T'') remindedWorld) = Inl SinkError
   \<and> fst (sendDailyOverdueReminders (sinkFailsAt ''T'') remindedWorld) = Inr ()
   \<and> map snd (calls (snd (sendDailyOverdueReminders (sinkFailsAt ''T'') remindedWorld))) =
       [FindManyCall 200, CreateForUsersCall [''U1''] (reminderPayload 1000 (remindedTask 0))]
   \<and> tasks (snd (sendDailyOverdueReminders (sinkFailsAt ''T'') remindedWorld)) =
       [remindedTask 0, remindedTask 1, remindedTask 2]
   \<and> lastOverdueNotifiedAt (remindedTask 1) = Some 5"
proof -
  have u: "reminderUserIds (remindedTask 0) = [''U1'']" by (rule reminded_users)
  have p: "p_entityId (reminderPayload 1000 (remindedTask 0)) = ''T''"
    by (simp add: reminderPayload_def remindedTask_def backlogTask_def)
  have q: "filter (stillOverdue 1000) [remindedTask 0, remindedTask 1, remindedTask 2] =
             [remindedTask 0, remindedTask 1, remindedTask 2]"
    by (simp add: stillOverdue_def remindedTask_def backlogTask_def)
  have l: "lastOverdueNotifiedAt (remindedTask 1) = Some 5"
    by (simp add: remindedTask_def)
  show ?thesis
    using u p q l
    by (simp add: sendDailyOverdueReminders_def sendDailyOverdueReminders_try_def findMany_def
          invoke_def logInfo_def logError_def reminderStep_def createForUsers_def sinkFailsAt_def
          quietEnv_def remindedWorld_def Let_def)
qed

subsection \<open>A failing sink\<close>







subsection \<open>The size of a batch\<close>

lemma length_notes_le:
  assumes "\<And>r. length (msg r) \<le> 1"
  shows "length (concat (map msg xs)) \<le> length xs"
proof (induction xs)
  case Nil
  then show ?case by simp
next
  case (Cons a xs)
  then show ?case using assms[of a] by simp
qed

lemma prefix_plus_one:
  "length (takeWhile P xs) + length (case dropWhile P xs of [] \<Rightarrow> [] | f # _ \<Rightarrow> g f) \<le> length xs"
  if "\<And>f. length (g f) \<le> 1"
proof (cases "dropWhile P xs")
  case Nil
  show ?thesis unfolding Nil using length_takeWhile_le[of P xs] by simp
next
  case (Cons f rest)
  have "length xs = length (takeWhile P xs) + length (dropWhile P xs)"
    by (metis length_append takeWhile_dropWhile_id)
  then show ?thesis unfolding Cons using that[of f] by simp
qed

lemma runSpec_bounds:
  assumes R: "runSpec r w ts lat ok reach msg msgF"
      and n1: "\<And>t. length (msg t) \<le> 1" and n2: "\<And>t. length (msgF t) \<le> 1"
  shows "length (updatesOf (newCalls w (snd r))) \<le> length ts"
    and "length (newNotifications w (snd r)) \<le> length ts"
proof -
  have "length (updatesOf (newCalls w (snd r))) = length (map snd (updatesOf (newCalls w (snd r))))"
    by simp
  also have "\<dots> = length (takeWhile ok ts)
      + length (case dropWhile ok ts of [] \<Rightarrow> [] | f # _ \<Rightarrow> if reach f then [(task_id f, clock w)] else [])"
    using R unfolding runSpec_def by simp
  also have "\<dots> \<le> length ts"
    by (rule prefix_plus_one) simp
  finally show "length (updatesOf (newCalls w (snd r))) \<le> length ts" .
  have "length (newNotifications w (snd r)) =
      length (concat (map msg (takeWhile ok ts)))
      + length (case dropWhile ok ts of [] \<Rightarrow> [] | f # _ \<Rightarrow> msgF f)"
    using R unfolding runSpec_def by simp
  also have "\<dots> \<le> length (takeWhile ok ts)
      + length (case dropWhile ok ts of [] \<Rightarrow> [] | f # _ \<Rightarrow> msgF f)"
    using length_notes_le[where xs = "takeWhile ok ts", OF n1] by simp
  also have "\<dots> \<le> length ts" by (rule prefix_plus_one) (rule n2)
  finally show "length (newNotifications w (snd r)) \<le> length ts" .
qed

lemma length_overdueNote: "length (overdueNote t) \<le> 1"
  by (simp add: overdueNote_def)

lemma length_overdueNoteF: "length (overdueNoteF e t) \<le> 1"
  by (simp add: overdueNoteF_def overdueNote_def)

lemma length_reminderNote: "length (reminderNote now t) \<le> 1"
  by (simp add: reminderNote_def)

lemma length_reminderNoteF: "length (reminderNoteF e now t) \<le> 1"
  by (simp add: reminderNoteF_def reminderNote_def)

lemma remind_failed_query:
  assumes "findManyFails e"
  shows "tasks (snd (sendDailyOverdueReminders e w)) = tasks w"
    and "newNotifications w (snd (sendDailyOverdueReminders e w)) = []"
    and "updatesOf (newCalls w (snd (sendDailyOverdueReminders e w))) = []"
  using assms
  by (simp_all add: remind_catch remind_try_failed_query invoke_def newNotifications_def newCalls_def)

lemma detect_bounds:
  "length (updatesOf (newCalls w (snd (detectOverdueTasks e w)))) \<le> 100"
  "length (newNotifications w (snd (detectOverdueTasks e w))) \<le> 100"
proof -
  have "length (updatesOf (newCalls w (snd (detectOverdueTasks e w)))) \<le> 100
      \<and> length (newNotifications w (snd (detectOverdueTasks e w))) \<le> 100"
  proof (cases "findManyFails e")
    case True
    then show ?thesis by (simp add: detect_failed_query)
  next
    case False
    have R: "runSpec (detectOverdueTasks_try e w) w (overdueBatch w) (int (latency e))
           (overdueStepOk e) (notifyOk e) overdueNote (overdueNoteF e)"
      by (rule detect_try_spec[OF False])
    have l: "length (overdueBatch w) \<le> 100" by (simp add: overdueBatch_def)
    have "length (updatesOf (newCalls w (snd (detectOverdueTasks_try e w)))) \<le> length (overdueBatch w)"
      by (rule runSpec_bounds(1)[OF R length_overdueNote length_overdueNoteF])
    moreover have "length (newNotifications w (snd (detectOverdueTasks_try e w))) \<le> length (overdueBatch w)"
      by (rule runSpec_bounds(2)[OF R length_overdueNote length_overdueNoteF])
    ultimately show ?thesis using l
      by (simp add: newCalls_def newNotifications_def detect_catch)
  qed
  then show "length (updatesOf (newCalls w (snd (detectOverdueTasks e w)))) \<le> 100"
    and "length (newNotifications w (snd (detectOverdueTasks e w))) \<le> 100" by simp_all
qed

lemma remind_bounds:
  "length (updatesOf (newCalls w (snd (sendDailyOverdueReminders e w)))) \<le> 200"
  "length (newNotifications w (snd (sendDailyOverdueReminders e w))) \<le> 200"
proof -
  have "length (updatesOf (newCalls w (snd (sendDailyOverdueReminders e w)))) \<le> 200
      \<and> length (newNotifications w (snd (sendDailyOverdueReminders e w))) \<le> 200"
  proof (cases "findManyFails e")
    case True
    then show ?thesis by (simp add: remind_failed_query)
  next
    case False
    have R: "runSpec (sendDailyOverdueReminders_try e w) w (reminderBatch w) (int (latency e))
           (reminderStepOk e (clock w)) (remindOk e (clock w))
           (reminderNote (clock w)) (reminderNoteF e (clock w))"
      by (rule remind_try_spec[OF False])
    have l: "length (reminderBatch w) \<le> 200" by (simp add: reminderBatch_def)
    have "length (updatesOf (newCalls w (snd (sendDailyOverdueReminders_try e w))))
            \<le> length (reminderBatch w)"
      by (rule runSpec_bounds(1)[OF R length_reminderNote length_reminderNoteF])
    moreover have "length (newNotifications w (snd (sendDailyOverdueReminders_try e w)))
            \<le> length (reminderBatch w)"
      by (rule runSpec_bounds(2)[OF R length_reminderNote length_reminderNoteF])
    ultimately show ?thesis using l
      by (simp add: newCalls_def newNotifications_def remind_catch)
  qed
  then show "length (updatesOf (newCalls w (snd (sendDailyOverdueReminders e w)))) \<le> 200"
    and "length (newNotifications w (snd (sendDailyOverdueReminders e w))) \<le> 200" by simp_all
qed

lemma remind_clean_run:
  assumes d: "distinct (map task_id (tasks w))"
      and ok: "fst (sendDailyOverdueReminders_try e w) = Inr ()"
  shows "tasks (snd (sendDailyOverdueReminders e w)) = stampRows (reminderBatch w) (clock w) (tasks w)"
    and "map snd (updatesOf (newCalls w (snd (sendDailyOverdueReminders e w)))) =
           map (\<lambda>t. (task_id t, clock w)) (reminderBatch w)"
proof -
  have nf: "\<not> findManyFails e"
    using ok by (auto simp: remind_try_failed_query)
  have R: "runSpec (sendDailyOverdueReminders_try e w) w (reminderBatch w) (int (latency e))
           (reminderStepOk e (clock w)) (remindOk e (clock w))
           (reminderNote (clock w)) (reminderNoteF e (clock w))"
    by (rule remind_try_spec[OF nf])
  then have all: "list_all (reminderStepOk e (clock w)) (reminderBatch w)"
    using ok by (simp add: runSpec_def)
  then have tw: "takeWhile (reminderStepOk e (clock w)) (reminderBatch w) = reminderBatch w"
    and dw: "dropWhile (reminderStepOk e (clock w)) (reminderBatch w) = []"
    by (simp_all add: list_all_iff)
  have sub: "set (reminderBatch w) \<subseteq> set (tasks w)" by (simp add: reminderBatch_def batch_subset)
  show "tasks (snd (sendDailyOverdueReminders e w)) = stampRows (reminderBatch w) (clock w) (tasks w)"
    using R tw stampAll_rows[OF d sub] by (simp add: runSpec_def remind_catch)
  show "map snd (updatesOf (newCalls w (snd (sendDailyOverdueReminders e w)))) =
           map (\<lambda>t. (task_id t, clock w)) (reminderBatch w)"
    using R tw dw by (simp add: runSpec_def remind_catch newCalls_def)
qed

lemma quiet_remind_try: "fst (sendDailyOverdueReminders_try quietEnv w) = Inr ()"
proof -
  have "runSpec (sendDailyOverdueReminders_try quietEnv w) w (reminderBatch w) (int (latency quietEnv))
           (reminderStepOk quietEnv (clock w)) (remindOk quietEnv (clock w))
           (reminderNote (clock w)) (reminderNoteF quietEnv (clock w))"
    by (rule remind_try_spec) (simp add: quietEnv_def)
  then show ?thesis by (simp add: runSpec_def quiet_reminderStepOk list_all_iff)
qed

text \<open>
  C7. A run of the 15-minute scan attempts at most 100 stamp updates and creates at most
  100 notifications, a run of the daily scan at most 200; a run that raises no error,
  over a table with distinct ids, stamps exactly the first 100 (200) qualifying rows,
  and the qualifying rows beyond the first 100 are still there, unstamped and
  qualifying: of 150 qualifying tasks 100 are processed and 50 remain.
\<close>

theorem batch_cap:
  "length (updatesOf (newCalls w (snd (detectOverdueTasks e w)))) \<le> 100
   \<and> length (newNotifications w (snd (detectOverdueTasks e w))) \<le> 100
   \<and> length (updatesOf (newCalls w (snd (sendDailyOverdueReminders e w)))) \<le> 200
   \<and> length (newNotifications w (snd (sendDailyOverdueReminders e w))) \<le> 200
   \<and> (distinct (map task_id (tasks w)) \<and> fst (detectOverdueTasks_try e w) = Inr () \<longrightarrow>
        map snd (updatesOf (newCalls w (snd (detectOverdueTasks e w)))) =
          map (\<lambda>t. (task_id t, clock w)) (take 100 (filter (newlyOverdue (clock w)) (tasks w)))
      \<and> tasks (snd (detectOverdueTasks e w)) =
          stampRows (take 100 (filter (newlyOverdue (clock w)) (tasks w))) (clock w) (tasks w)
      \<and> filter (newlyOverdue (clock w)) (tasks (snd (detectOverdueTasks e w))) =
          drop 100 (filter (newlyOverdue (clock w)) (tasks w)))
   \<and> (distinct (map task_id (tasks w)) \<and> fst (sendDailyOverdueReminders_try e w) = Inr () \<longrightarrow>
        map snd (updatesOf (newCalls w (snd (sendDailyOverdueReminders e w)))) =
          map (\<lambda>t. (task_id t, clock w)) (take 200 (filter (stillOverdue (clock w)) (tasks w)))
      \<and> tasks (snd (sendDailyOverdueReminders e w)) =
          stampRows (take 200 (filter (stillOverdue (clock w)) (tasks w))) (clock w) (tasks w))"
proof (intro conjI impI)
  show "length (updatesOf (newCalls w (snd (detectOverdueTasks e w)))) \<le> 100"
    by (rule detect_bounds(1))
  show "length (newNotifications w (snd (detectOverdueTasks e w))) \<le> 100"
    by (rule detect_bounds(2))
  show "length (updatesOf (newCalls w (snd (sendDailyOverdueReminders e w)))) \<le> 200"
    by (rule remind_bounds(1))
  show "length (newNotifications w (snd (sendDailyOverdueReminders e w))) \<le> 200"
    by (rule remind_bounds(2))
next
  assume h: "distinct (map task_id (tasks w)) \<and> fst (detectOverdueTasks_try e w) = Inr ()"
  then have d: "distinct (map task_id (tasks w))" and ok: "fst (detectOverdueTasks_try e w) = Inr ()"
    by simp_all
  note run = detect_clean_run[OF d ok, unfolded overdueBatch_def]
  show "map snd (updatesOf (newCalls w (snd (detectOverdueTasks e w)))) =
          map (\<lambda>t. (task_id t, clock w)) (take 100 (filter (newlyOverdue (clock w)) (tasks w)))"
    by (rule run(3))
  show "tasks (snd (detectOverdueTasks e w)) =
          stampRows (take 100 (filter (newlyOverdue (clock w)) (tasks w))) (clock w) (tasks w)"
    by (rule run(1))
  show "filter (newlyOverdue (clock w)) (tasks (snd (detectOverdueTasks e w))) =
          drop 100 (filter (newlyOverdue (clock w)) (tasks w))"
    unfolding run(1) by (rule remaining_after_batch[OF d])
next
  assume h: "distinct (map task_id (tasks w)) \<and> fst (sendDailyOverdueReminders_try e w) = Inr ()"
  then have d: "distinct (map task_id (tasks w))"
    and ok: "fst (sendDailyOverdueReminders_try e w) = Inr ()"
    by simp_all
  note run = remind_clean_run[OF d ok, unfolded reminderBatch_def]
  show "map snd (updatesOf (newCalls w (snd (sendDailyOverdueReminders e w)))) =
          map (\<lambda>t. (task_id t, clock w)) (take 200 (filter (stillOverdue (clock w)) (tasks w)))"
    by (rule run(2))
  show "tasks (snd (sendDailyOverdueReminders e w)) =
          stampRows (take 200 (filter (stillOverdue (clock w)) (tasks w))) (clock w) (tasks w)"
    by (rule run(1))
qed

theorem batch_cap_witness:
  "distinct (map task_id (tasks (backlogWorld 150)))
   \<and> fst (detectOverdueTasks_try quietEnv (backlogWorld 150)) = Inr ()
   \<and> length (filter (newlyOverdue (clock (backlogWorld 150))) (tasks (backlogWorld 150))) = 150
   \<and> length (updatesOf (newCalls (backlogWorld 150)
        (snd (detectOverdueTasks quietEnv (backlogWorld 150))))) = 100
   \<and> length (filter (newlyOverdue (clock (backlogWorld 150)))
        (tasks (snd (detectOverdueTasks quietEnv (backlogWorld 150))))) = 50
   \<and> distinct (map task_id (tasks remindedWorld))
   \<and> fst (sendDailyOverdueReminders_try quietEnv remindedWorld) = Inr ()
   \<and> map snd (updatesOf (newCalls remindedWorld
        (snd (sendDailyOverdueReminders quietEnv remindedWorld)))) =
       [(''T'', 1000), (''TI'', 1000), (''TII'', 1000)]"
proof -
  have q: "filter (newlyOverdue (clock (backlogWorld 150))) (tasks (backlogWorld 150)) =
             map backlogTask [0..<150]"
    by (simp add: backlogWorld_def backlog_qualifying)
  have d': "distinct (map task_id (tasks remindedWorld))"
    by (simp add: remindedWorld_def remindedTask_def backlogTask_def eval_nat_numeral)
  have b': "take 200 (filter (stillOverdue (clock remindedWorld)) (tasks remindedWorld)) =
       [remindedTask 0, remindedTask 1, remindedTask 2]"
    by (simp add: remindedWorld_def stillOverdue_def remindedTask_def backlogTask_def)
  note A = batch_cap[of "backlogWorld 150" quietEnv, THEN conjunct2, THEN conjunct2,
      THEN conjunct2, THEN conjunct2, THEN conjunct1, THEN mp,
      OF conjI[OF backlog_distinct quiet_detect_try]]
  have "map snd (updatesOf (newCalls (backlogWorld 150)
             (snd (detectOverdueTasks quietEnv (backlogWorld 150))))) =
           map (\<lambda>t. (task_id t, clock (backlogWorld 150)))
             (take 100 (filter (newlyOverdue (clock (backlogWorld 150))) (tasks (backlogWorld 150))))"
    by (rule A[THEN conjunct1])
  then have u: "map snd (updatesOf (newCalls (backlogWorld 150)
             (snd (detectOverdueTasks quietEnv (backlogWorld 150))))) =
           map (\<lambda>t. (task_id t, clock (backlogWorld 150))) (take 100 (map backlogTask [0..<150]))"
    unfolding q .
  have "length (map snd (updatesOf (newCalls (backlogWorld 150)
             (snd (detectOverdueTasks quietEnv (backlogWorld 150)))))) = 100"
    unfolding u by simp
  then have l1: "length (updatesOf (newCalls (backlogWorld 150)
        (snd (detectOverdueTasks quietEnv (backlogWorld 150))))) = 100" by simp
  have "filter (newlyOverdue (clock (backlogWorld 150)))
        (tasks (snd (detectOverdueTasks quietEnv (backlogWorld 150)))) =
        drop 100 (filter (newlyOverdue (clock (backlogWorld 150))) (tasks (backlogWorld 150)))"
    by (rule A[THEN conjunct2, THEN conjunct2])
  then have r: "filter (newlyOverdue (clock (backlogWorld 150)))
        (tasks (snd (detectOverdueTasks quietEnv (backlogWorld 150)))) =
        drop 100 (map backlogTask [0..<150])"
    unfolding q .
  have l2: "length (filter (newlyOverdue (clock (backlogWorld 150)))
        (tasks (snd (detectOverdueTasks quietEnv (backlogWorld 150))))) = 50"
    unfolding r by simp
  note B = batch_cap[of remindedWorld quietEnv, THEN conjunct2, THEN conjunct2,
      THEN conjunct2, THEN conjunct2, THEN conjunct2, THEN mp,
      OF conjI[OF d' quiet_remind_try]]
  have "map snd (updatesOf (newCalls remindedWorld
        (snd (sendDailyOverdueReminders quietEnv remindedWorld)))) =
       map (\<lambda>t. (task_id t, clock remindedWorld))
         (take 200 (filter (stillOverdue (clock remindedWorld)) (tasks remindedWorld)))"
    by (rule B[THEN conjunct1])
  then have u': "map snd (updatesOf (newCalls remindedWorld
        (snd (sendDailyOverdueReminders quietEnv remindedWorld)))) =
       map (\<lambda>t. (task_id t, clock remindedWorld)) [remindedTask 0, remindedTask 1, remindedTask 2]"
    unfolding b' .
  have u'': "map snd (updatesOf (newCalls remindedWorld
        (snd (sendDailyOverdueReminders quietEnv remindedWorld)))) =
       [(''T'', 1000), (''TI'', 1000), (''TII'', 1000)]"
    unfolding u' by (simp add: remindedWorld_def remindedTask_def backlogTask_def eval_nat_numeral)
  have l0: "length (filter (newlyOverdue (clock (backlogWorld 150))) (tasks (backlogWorld 150))) = 150"
    unfolding q by simp
  show ?thesis
    by (intro conjI backlog_distinct quiet_detect_try l0 l1 l2 d' quiet_remind_try u'')
qed

subsection \<open>The timestamp of a run\<close>

lemma runSpec_timestamps:
  assumes R: "runSpec r w ts (int lat) ok reach msg msgF"
  shows "list_all (\<lambda>c. snd (snd c) = clock w \<and> clock w + int lat \<le> fst c)
           (updatesOf (newCalls w (snd r)))"
proof -
  let ?us = "updatesOf (newCalls w (snd r))"
  have m: "map snd ?us = map (\<lambda>t. (task_id t, clock w)) (takeWhile ok ts)
            @ (case dropWhile ok ts of [] \<Rightarrow> []
               | f # _ \<Rightarrow> if reach f then [(task_id f, clock w)] else [])"
    using R by (simp add: runSpec_def)
  have "\<And>p. p \<in> set (map snd ?us) \<Longrightarrow> snd p = clock w"
    unfolding m by (auto split: list.splits if_splits)
  then have a: "\<And>c. c \<in> set ?us \<Longrightarrow> snd (snd c) = clock w" by simp
  have b: "list_all (\<lambda>u. clock w + int lat \<le> fst u) ?us"
    using R by (simp add: runSpec_def)
  show ?thesis using a b by (simp add: list_all_iff)
qed

text \<open>
  C10. Every stamp update a run of either scan attempts writes the time read at the
  start of the run, before the query, although the update itself is invoked at least one
  invocation's latency later; and each row after the run is the row before it or that
  row stamped with the start time.
\<close>

theorem one_timestamp_per_run:
  "list_all (\<lambda>c. snd (snd c) = clock w \<and> clock w + int (latency e) \<le> fst c)
     (updatesOf (newCalls w (snd (detectOverdueTasks e w))))
   \<and> list_all (\<lambda>c. snd (snd c) = clock w \<and> clock w + int (latency e) \<le> fst c)
       (updatesOf (newCalls w (snd (sendDailyOverdueReminders e w))))
   \<and> (\<exists>ids. tasks (snd (detectOverdueTasks e w)) = stampAll ids (clock w) (tasks w))
   \<and> (\<exists>ids. tasks (snd (sendDailyOverdueReminders e w)) = stampAll ids (clock w) (tasks w))"
proof (cases "findManyFails e")
  case True
  have "tasks (snd (detectOverdueTasks e w)) = stampAll [] (clock w) (tasks w)"
    using detect_failed_query(1)[OF True] by (simp add: stampAll_Nil)
  moreover have "tasks (snd (sendDailyOverdueReminders e w)) = stampAll [] (clock w) (tasks w)"
    using remind_failed_query(1)[OF True] by (simp add: stampAll_Nil)
  ultimately show ?thesis
    using detect_failed_query(3)[OF True] remind_failed_query(3)[OF True] by auto
next
  case False
  have R: "runSpec (detectOverdueTasks_try e w) w (overdueBatch w) (int (latency e))
           (overdueStepOk e) (notifyOk e) overdueNote (overdueNoteF e)"
    by (rule detect_try_spec[OF False])
  have R': "runSpec (sendDailyOverdueReminders_try e w) w (reminderBatch w) (int (latency e))
           (reminderStepOk e (clock w)) (remindOk e (clock w))
           (reminderNote (clock w)) (reminderNoteF e (clock w))"
    by (rule remind_try_spec[OF False])
  have 1: "list_all (\<lambda>c. snd (snd c) = clock w \<and> clock w + int (latency e) \<le> fst c)
     (updatesOf (newCalls w (snd (detectOverdueTasks e w))))"
    using runSpec_timestamps[OF R] by (simp add: newCalls_def detect_catch)
  have 2: "list_all (\<lambda>c. snd (snd c) = clock w \<and> clock w + int (latency e) \<le> fst c)
       (updatesOf (newCalls w (snd (sendDailyOverdueReminders e w))))"
    using runSpec_timestamps[OF R'] by (simp add: newCalls_def remind_catch)
  have 3: "\<exists>ids. tasks (snd (detectOverdueTasks e w)) = stampAll ids (clock w) (tasks w)"
    using R by (auto simp: runSpec_def detect_catch)
  have 4: "\<exists>ids. tasks (snd (sendDailyOverdueReminders e w)) = stampAll ids (clock w) (tasks w)"
    using R' by (auto simp: runSpec_def remind_catch)
  show ?thesis by (intro conjI 1 2 3 4)
qed

lemma upt2: "[0..<2] = [0, 1]"
  by (simp add: eval_nat_numeral)

lemma slow_run_trace:
  "updatesOf (newCalls (backlogWorld 2) (snd (detectOverdueTasks slowEnv (backlogWorld 2)))) =
     [(1030, ''T'', 1000), (1060, ''TI'', 1000)]
   \<and> clock (snd (detectOverdueTasks slowEnv (backlogWorld 2))) = 1070
   \<and> tasks (snd (detectOverdueTasks slowEnv (backlogWorld 2))) =
       [(backlogTask 0)\<lparr> lastOverdueNotifiedAt := Some 1000 \<rparr>,
        (backlogTask 1)\<lparr> lastOverdueNotifiedAt := Some 1000 \<rparr>]"
  by (simp add: run_defs newCalls_def slowEnv_def quietEnv_def backlogWorld_def upt2
        backlogTask_def Let_def)

theorem one_timestamp_per_run_witness:
  "updatesOf (newCalls (backlogWorld 2) (snd (detectOverdueTasks slowEnv (backlogWorld 2)))) =
     [(1030, ''T'', 1000), (1060, ''TI'', 1000)]
   \<and> clock (backlogWorld 2) = 1000 \<and> latency slowEnv = 10
   \<and> list_all (\<lambda>c. snd (snd c) = clock (backlogWorld 2)
                  \<and> clock (backlogWorld 2) + int (latency slowEnv) \<le> fst c)
        [(1030, ''T'', 1000), (1060, ''TI'', 1000)]
   \<and> tasks (snd (detectOverdueTasks slowEnv (backlogWorld 2))) =
       [(backlogTask 0)\<lparr> lastOverdueNotifiedAt := Some 1000 \<rparr>,
        (backlogTask 1)\<lparr> lastOverdueNotifiedAt := Some 1000 \<rparr>]
   \<and> clock (snd (detectOverdueTasks slowEnv (backlogWorld 2))) = 1070"
proof -
  have c: "clock (backlogWorld 2) = 1000" by (simp add: backlogWorld_def)
  have l: "latency slowEnv = 10" by (simp add: slowEnv_def quietEnv_def)
  have "list_all (\<lambda>c. snd (snd c) = clock (backlogWorld 2)
                  \<and> clock (backlogWorld 2) + int (latency slowEnv) \<le> fst c)
        (updatesOf (newCalls (backlogWorld 2) (snd (detectOverdueTasks slowEnv (backlogWorld 2)))))"
    by (rule one_timestamp_per_run[of "backlogWorld 2" slowEnv, THEN conjunct1])
  then have "list_all (\<lambda>c. snd (snd c) = clock (backlogWorld 2)
                  \<and> clock (backlogWorld 2) + int (latency slowEnv) \<le> fst c)
        [(1030, ''T'', 1000), (1060, ''TI'', 1000)]"
    unfolding slow_run_trace[THEN conjunct1] .
  then show ?thesis using slow_run_trace c l by simp
qed

end
